theory Spec2Isabelle
  imports Main "HOL-Library.Sublist"
begin

section \<open>JavaScript strings and regular expressions\<close>

text \<open>
  A JavaScript string is a sequence of UTF-16 code units. The model keeps them as natural
  numbers, so that \<open>length\<close>, \<open>substring\<close> and the character classes of the regular
  expressions count and test what the source's string type counts and tests.
  \<open>js\<close> turns an ASCII literal into such a string.
\<close>

type_synonym jsstring = "nat list"

definition js :: "string \<Rightarrow> jsstring" where
  "js s = map of_char s"

text \<open>The class \<open>\s\<close> (and the characters \<open>String.prototype.trim\<close> strips): ECMAScript's
  WhiteSpace and LineTerminator code points.\<close>

definition is_space :: "nat \<Rightarrow> bool" where
  "is_space c \<longleftrightarrow>
     c \<in> {9, 10, 11, 12, 13, 32, 160, 5760, 8232, 8233, 8239, 8287, 12288, 65279}
     \<or> (8192 \<le> c \<and> c \<le> 8202)"

text \<open>The class \<open>\d\<close>.\<close>

definition is_digit :: "nat \<Rightarrow> bool" where
  "is_digit c \<longleftrightarrow> 48 \<le> c \<and> c \<le> 57"

text \<open>
  The regular expressions of the source are kept as syntax trees and run by a backtracking
  matcher. \<open>Star True r\<close> is the greedy \<open>r*\<close>, \<open>Star False r\<close> the lazy \<open>r*?\<close>;
  \<open>Grp n r\<close> is the capture group number \<open>n\<close>; \<open>Bol\<close> and \<open>Eol\<close> are \<open>^\<close> and \<open>$\<close>
  without the multiline flag.
\<close>

datatype re =
    Lit jsstring
  | Cls "nat \<Rightarrow> bool"
  | Seq re re
  | Alt re re
  | Star bool re
  | Grp nat re
  | Bol
  | Eol

definition Opt :: "re \<Rightarrow> re" where
  "Opt r = Alt r (Lit [])"

definition Plus :: "re \<Rightarrow> re" where
  "Plus r = Seq r (Star True r)"

text \<open>
  A matcher state is the input already consumed, the input still ahead, and the captures
  made so far (latest first). \<open>ms r st\<close> lists every way \<open>r\<close> can match from \<open>st\<close>, in
  the order in which a backtracking engine tries them, so the head of the list is the match
  the engine reports. An iteration of a star that consumes nothing is rejected, as
  ECMAScript does; each accepted iteration shortens the input ahead, so the length of
  that input bounds the number of iterations.
\<close>

type_synonym caps = "(nat \<times> jsstring) list"
type_synonym mstate = "jsstring \<times> jsstring \<times> caps"

fun star_iter :: "(mstate \<Rightarrow> mstate list) \<Rightarrow> bool \<Rightarrow> nat \<Rightarrow> mstate \<Rightarrow> mstate list" where
  "star_iter f g 0 st = [st]"
| "star_iter f g (Suc n) st =
     (let more = concat (map (\<lambda>st'. if length (fst (snd st')) < length (fst (snd st))
                                      then star_iter f g n st' else []) (f st))
      in if g then more @ [st] else st # more)"

fun ms :: "re \<Rightarrow> mstate \<Rightarrow> mstate list" where
  "ms (Lit w) (pre, rest, cs) =
     (if prefix w rest then [(pre @ w, drop (length w) rest, cs)] else [])"
| "ms (Cls P) (pre, rest, cs) =
     (case rest of [] \<Rightarrow> [] | c # rest' \<Rightarrow> if P c then [(pre @ [c], rest', cs)] else [])"
| "ms (Seq r1 r2) st = concat (map (ms r2) (ms r1 st))"
| "ms (Alt r1 r2) st = ms r1 st @ ms r2 st"
| "ms (Star g r) st = star_iter (ms r) g (length (fst (snd st))) st"
| "ms (Grp n r) (pre, rest, cs) =
     map (\<lambda>(pre', rest', cs'). (pre', rest', (n, drop (length pre) pre') # cs'))
       (ms r (pre, rest, cs))"
| "ms Bol (pre, rest, cs) = (if pre = [] then [(pre, rest, cs)] else [])"
| "ms Eol (pre, rest, cs) = (if rest = [] then [(pre, rest, cs)] else [])"

text \<open>
  \<open>search r pre rest\<close> is the engine's scan for the leftmost match at or after the
  current position: the position where the match starts, and the state at its end.
\<close>

fun search :: "re \<Rightarrow> jsstring \<Rightarrow> jsstring \<Rightarrow> (jsstring \<times> mstate) option" where
  "search r pre [] = (case ms r (pre, [], []) of st # _ \<Rightarrow> Some (pre, st) | [] \<Rightarrow> None)"
| "search r pre (c # cs) =
     (case ms r (pre, c # cs, []) of st # _ \<Rightarrow> Some (pre, st)
      | [] \<Rightarrow> search r (pre @ [c]) cs)"

text \<open>\<open>str.match(r)\<close> for a regular expression without the global flag: the captures of the
  leftmost match, or \<open>None\<close> for \<open>null\<close>. \<open>group m n\<close> is \<open>m[n]\<close>, \<open>None\<close> when the
  group took no part in the match (\<open>undefined\<close>).\<close>

definition re_match :: "re \<Rightarrow> jsstring \<Rightarrow> caps option" where
  "re_match r s = (case search r [] s of None \<Rightarrow> None | Some (_, _, _, cs) \<Rightarrow> Some cs)"

definition group :: "caps \<Rightarrow> nat \<Rightarrow> jsstring option" where
  "group m n = map_of m n"

text \<open>\<open>str.split(sep)\<close> for a separator of one character.\<close>

fun split_on :: "nat \<Rightarrow> jsstring \<Rightarrow> jsstring list" where
  "split_on sep [] = [[]]"
| "split_on sep (c # cs) =
     (let ls = split_on sep cs in if c = sep then [] # ls else (c # hd ls) # tl ls)"

subsection \<open>Facts about the matcher\<close>

lemma js_Nil: "js [] = []"
  by (simp add: js_def)

lemma js_Cons: "js (c # s) = of_char c # js s"
  by (simp add: js_def)

lemma js_append: "js (a @ b) = js a @ js b"
  by (simp add: js_def)

lemma split_on_not_Nil [simp]: "split_on sep s \<noteq> []"
  by (induction s) (auto simp: Let_def)

lemma split_on_no_sep: "sep \<notin> set s \<Longrightarrow> split_on sep s = [s]"
  by (induction s) (auto simp: Let_def)

text \<open>Matching only consumes input, and only adds captures.\<close>

lemma star_iter_inv:
  assumes f: "\<And>p r c p' r' c'. (p', r', c') \<in> set (f (p, r, c)) \<Longrightarrow>
              (\<exists>a. p' = p @ a \<and> r = a @ r') \<and> (\<exists>new. c' = new @ c)"
  shows "(p', r', c') \<in> set (star_iter f g n (p, r, c)) \<Longrightarrow>
         (\<exists>a. p' = p @ a \<and> r = a @ r') \<and> (\<exists>new. c' = new @ c)"
proof (induction n arbitrary: p r c)
  case 0
  then show ?case by simp
next
  case (Suc n)
  from Suc.prems consider
      (here) "(p', r', c') = (p, r, c)"
    | (more) p1 r1 c1 where "(p1, r1, c1) \<in> set (f (p, r, c))"
        "(p', r', c') \<in> set (star_iter f g n (p1, r1, c1))"
    by (auto simp: Let_def split: if_splits)
  then show ?case
  proof cases
    case here
    then show ?thesis by simp
  next
    case more
    from f [OF more(1)] obtain a new where 1: "p1 = p @ a" "r = a @ r1" "c1 = new @ c"
      by blast
    from Suc.IH [OF more(2)] obtain a' new' where 2: "p' = p1 @ a'" "r1 = a' @ r'" "c' = new' @ c1"
      by blast
    from 1 2 show ?thesis by simp
  qed
qed

lemma ms_inv:
  "(p', r', c') \<in> set (ms re (p, r, c)) \<Longrightarrow>
     (\<exists>a. p' = p @ a \<and> r = a @ r') \<and> (\<exists>new. c' = new @ c)"
proof (induction re arbitrary: p r c p' r' c')
  case (Lit w)
  then show ?case by (auto simp: prefix_def split: if_splits)
next
  case (Cls P)
  then show ?case by (auto split: list.splits if_splits)
next
  case (Seq r1 r2)
  from Seq.prems obtain p1 q1 c1 where m1: "(p1, q1, c1) \<in> set (ms r1 (p, r, c))"
    and m2: "(p', r', c') \<in> set (ms r2 (p1, q1, c1))"
    by auto
  from Seq.IH(1) [OF m1] obtain a new where 1: "p1 = p @ a" "r = a @ q1" "c1 = new @ c"
    by blast
  from Seq.IH(2) [OF m2] obtain a' new' where 2: "p' = p1 @ a'" "q1 = a' @ r'" "c' = new' @ c1"
    by blast
  from 1 2 show ?case by simp
next
  case (Alt r1 r2)
  then show ?case by auto
next
  case (Star g r0)
  have "(p', r', c') \<in> set (star_iter (ms r0) g (length r) (p, r, c))"
    using Star.prems by simp
  then show ?case
    by (rule star_iter_inv [rotated]) (rule Star.IH)
next
  case (Grp n r0)
  from Grp.prems obtain c0 where m: "(p', r', c0) \<in> set (ms r0 (p, r, c))"
    and c': "c' = (n, drop (length p) p') # c0"
    by auto
  from Grp.IH [OF m] obtain a new where "p' = p @ a" "r = a @ r'" "c0 = new @ c"
    by blast
  with c' show ?case by simp
next
  case Bol
  then show ?case by (auto split: if_splits)
next
  case Eol
  then show ?case by (auto split: if_splits)
qed

text \<open>A successful scan reports a state the matcher reached from the reported start.\<close>

lemma search_Some:
  "search r pre rest = Some (p0, st) \<Longrightarrow>
     \<exists>a b. p0 = pre @ a \<and> rest = a @ b \<and> st \<in> set (ms r (p0, b, []))"
proof (induction rest arbitrary: pre)
  case Nil
  then show ?case by (auto split: list.splits)
next
  case (Cons c cs)
  show ?case
  proof (cases "ms r (pre, c # cs, [])")
    case Nil
    with Cons.prems have "search r (pre @ [c]) cs = Some (p0, st)" by simp
    from Cons.IH [OF this] obtain a b where "p0 = (pre @ [c]) @ a" "cs = a @ b"
      "st \<in> set (ms r (p0, b, []))" by blast
    then have "p0 = pre @ (c # a) \<and> c # cs = (c # a) @ b \<and> st \<in> set (ms r (p0, b, []))"
      by simp
    then show ?thesis by blast
  next
    case (Cons st' sts)
    with Cons.prems have "p0 = pre" "st = st'" by simp_all
    with Cons have "p0 = pre @ [] \<and> c # cs = [] @ (c # cs) \<and> st \<in> set (ms r (p0, c # cs, []))"
      by simp
    then show ?thesis by blast
  qed
qed


lemma star_iter_rel:
  assumes step: "\<And>s s'. s' \<in> set (f s) \<Longrightarrow> R s s'"
    and refl: "\<And>s. R s s"
    and trans: "\<And>s t u. R s t \<Longrightarrow> R t u \<Longrightarrow> R s u"
  shows "s' \<in> set (star_iter f g n s) \<Longrightarrow> R s s'"
proof (induction n arbitrary: s)
  case 0
  then show ?case by (simp add: refl)
next
  case (Suc n)
  from Suc.prems consider
      (here) "s' = s"
    | (more) s1 where "s1 \<in> set (f s)" "s' \<in> set (star_iter f g n s1)"
    by (auto simp: Let_def split: if_splits)
  then show ?case
  proof cases
    case here
    then show ?thesis by (simp add: refl)
  next
    case more
    from step [OF more(1)] Suc.IH [OF more(2)] show ?thesis by (rule trans)
  qed
qed

lemma ms_SeqE:
  "st' \<in> set (ms (Seq r1 r2) st) \<Longrightarrow> \<exists>st1 \<in> set (ms r1 st). st' \<in> set (ms r2 st1)"
  by auto

lemma ms_LitE:
  "(p', r', c') \<in> set (ms (Lit w) (p, r, c)) \<Longrightarrow> p' = p @ w \<and> r = w @ r' \<and> c' = c"
  by (auto simp: prefix_def split: if_splits)

lemma ms_GrpE:
  "(p', r', c') \<in> set (ms (Grp n r0) (p, r, c)) \<Longrightarrow>
     \<exists>c0. (p', r', c0) \<in> set (ms r0 (p, r, c)) \<and> c' = (n, drop (length p) p') # c0"
  by auto

lemma ms_BolE:
  "(p', r', c') \<in> set (ms Bol (p, r, c)) \<Longrightarrow> p = [] \<and> p' = [] \<and> r' = r \<and> c' = c"
  by (auto split: if_splits)

lemma ms_EolE:
  "(p', r', c') \<in> set (ms Eol (p, r, c)) \<Longrightarrow> r = [] \<and> p' = p \<and> r' = [] \<and> c' = c"
  by (auto split: if_splits)

lemma ms_ClsE:
  "(p', r', c') \<in> set (ms (Cls P) (p, r, c)) \<Longrightarrow> \<exists>x. P x \<and> p' = p @ [x] \<and> r = x # r' \<and> c' = c"
  by (auto split: list.splits if_splits)

lemma ms_OptE:
  "st' \<in> set (ms (Opt r0) st) \<Longrightarrow> st' \<in> set (ms r0 st) \<or> st' = st"
  by (cases st) (auto simp: Opt_def)

lemma ms_Star_ClsE:
  assumes "(p', r', c') \<in> set (ms (Star g (Cls P)) (p, r, c))"
  shows "\<exists>a. p' = p @ a \<and> r = a @ r' \<and> c' = c \<and> (\<forall>x \<in> set a. P x)"
proof -
  let ?R = "\<lambda>s s'. \<exists>a. fst s' = fst s @ a \<and> fst (snd s) = a @ fst (snd s')
              \<and> snd (snd s') = snd (snd s) \<and> (\<forall>x \<in> set a. P x)"
  have "?R (p, r, c) (p', r', c')"
  proof (rule star_iter_rel [where R = ?R and f = "ms (Cls P)" and g = g and n = "length r"
        and s = "(p, r, c)" and s' = "(p', r', c')"])
    show "(p', r', c') \<in> set (star_iter (ms (Cls P)) g (length r) (p, r, c))"
      using assms by simp
  next
    fix s s' :: mstate
    assume "s' \<in> set (ms (Cls P) s)"
    then show "?R s s'"
      by (cases s; cases s') (auto dest!: ms_ClsE)
  next
    fix s :: mstate
    show "?R s s" by simp
  next
    fix s t u :: mstate
    assume "?R s t" "?R t u"
    then obtain a b where "fst t = fst s @ a" "fst (snd s) = a @ fst (snd t)"
      "snd (snd t) = snd (snd s)" "\<forall>x \<in> set a. P x"
      "fst u = fst t @ b" "fst (snd t) = b @ fst (snd u)"
      "snd (snd u) = snd (snd t)" "\<forall>x \<in> set b. P x"
      by blast
    then have "fst u = fst s @ (a @ b) \<and> fst (snd s) = (a @ b) @ fst (snd u)
      \<and> snd (snd u) = snd (snd s) \<and> (\<forall>x \<in> set (a @ b). P x)"
      by auto
    then show "?R s u" by blast
  qed
  then show ?thesis by simp
qed

lemma ms_Plus_ClsE:
  assumes "(p', r', c') \<in> set (ms (Plus (Cls P)) (p, r, c))"
  shows "\<exists>a. p' = p @ a \<and> r = a @ r' \<and> c' = c \<and> a \<noteq> [] \<and> (\<forall>x \<in> set a. P x)"
proof -
  from assms obtain st1 where 1: "st1 \<in> set (ms (Cls P) (p, r, c))"
    and 2: "(p', r', c') \<in> set (ms (Star True (Cls P)) st1)"
    unfolding Plus_def by (blast dest: ms_SeqE)
  obtain p1 r1 c1 where st1: "st1 = (p1, r1, c1)" by (cases st1)
  from ms_ClsE [OF 1 [unfolded st1]] obtain x where x: "P x" "p1 = p @ [x]" "r = x # r1" "c1 = c"
    by blast
  from ms_Star_ClsE [OF 2 [unfolded st1]] obtain a where a: "p' = p1 @ a" "r1 = a @ r'" "c' = c1"
    "\<forall>x \<in> set a. P x" by blast
  from x a have "p' = p @ (x # a) \<and> r = (x # a) @ r' \<and> c' = c \<and> x # a \<noteq> [] \<and> (\<forall>y \<in> set (x # a). P y)"
    by simp
  then show ?thesis by blast
qed


section \<open>Identity codec\<close>

datatype issue_state = OPEN | CLOSED

record GitHubIssue =
  number :: nat
  title :: jsstring
  body :: jsstring
  repository :: jsstring
  url :: jsstring
  status :: jsstring
  state :: issue_state
  assignees :: "jsstring list"
  labels :: "jsstring list"

record IssueFrontmatter =
  fm_url :: jsstring
  repo :: jsstring
  issue_number :: nat

datatype js_error = TypeError

definition generateFrontmatter :: "GitHubIssue \<Rightarrow> jsstring" where
  "generateFrontmatter issue =
     js ''---'' @ [10] @ (js ''url: '' @ [34] @ url issue @ [34]) @ [10] @ js ''---''"

definition frontmatter_re :: re where
  "frontmatter_re =
     Seq Bol (Seq (Lit (js ''---'' @ [10]))
       (Seq (Grp 1 (Star False (Cls (\<lambda>c. is_space c \<or> \<not> is_space c))))
         (Lit ([10] @ js ''---''))))"

definition url_line_re :: re where
  "url_line_re =
     Seq Bol (Seq (Lit (js ''url:'')) (Seq (Star True (Cls is_space))
       (Seq (Opt (Lit [34])) (Seq (Grp 1 (Star True (Cls (\<lambda>c. c \<noteq> 34))))
         (Seq (Opt (Lit [34])) (Seq (Star True (Cls is_space)) Eol))))))"

definition issue_url_re :: re where
  "issue_url_re =
     Seq (Lit [47]) (Seq (Grp 1 (Plus (Cls (\<lambda>c. c \<noteq> 47))))
       (Seq (Lit [47]) (Seq (Grp 2 (Plus (Cls (\<lambda>c. c \<noteq> 47))))
         (Seq (Lit (js ''/issues/'')) (Grp 3 (Plus (Cls is_digit)))))))"

definition tmpl :: "jsstring option \<Rightarrow> jsstring" where
  "tmpl v = (case v of None \<Rightarrow> js ''undefined'' | Some s \<Rightarrow> s)"

definition parseInt :: "jsstring \<Rightarrow> nat" where
  "parseInt s = foldl (\<lambda>a c. 10 * a + (c - 48)) 0 (takeWhile is_digit s)"

fun find_url :: "jsstring list \<Rightarrow> jsstring option" where
  "find_url [] = None"
| "find_url (line # ls) =
     (case re_match url_line_re line of Some m \<Rightarrow> group m 1 | None \<Rightarrow> find_url ls)"

definition parseFrontmatter :: "jsstring \<Rightarrow> js_error + IssueFrontmatter option" where
  "parseFrontmatter content =
     (case re_match frontmatter_re content of
        None \<Rightarrow> Inr None
      | Some frontmatterMatch \<Rightarrow>
          (case group frontmatterMatch 1 of
             None \<Rightarrow> Inl TypeError
           | Some yamlContent \<Rightarrow>
               (case find_url (split_on 10 yamlContent) of
                  None \<Rightarrow> Inr None
                | Some u \<Rightarrow>
                    if u = [] then Inr None
                    else (case re_match issue_url_re u of
                            None \<Rightarrow> Inr None
                          | Some urlMatch \<Rightarrow>
                              Inr (Some \<lparr>fm_url = u,
                                repo = tmpl (group urlMatch 1) @ js ''/'' @ tmpl (group urlMatch 2),
                                issue_number = parseInt (tmpl (group urlMatch 3))\<rparr>)))))"

definition has_header_block :: "jsstring \<Rightarrow> bool" where
  "has_header_block c \<longleftrightarrow> (\<exists>y z. c = js ''---'' @ [10] @ y @ [10] @ js ''---'' @ z)"

definition has_url_field :: "jsstring \<Rightarrow> bool" where
  "has_url_field c \<longleftrightarrow> (\<exists>line \<in> set (split_on 10 c). prefix (js ''url:'') line)"

definition has_issue_shape :: "jsstring \<Rightarrow> bool" where
  "has_issue_shape c \<longleftrightarrow>
     (\<exists>a owner rname d b. c = a @ [47] @ owner @ [47] @ rname @ js ''/issues/'' @ [d] @ b
        \<and> owner \<noteq> [] \<and> rname \<noteq> [] \<and> 47 \<notin> set owner \<and> 47 \<notin> set rname \<and> is_digit d)"

lemma re_match_Some:
  "re_match r s = Some m \<Longrightarrow>
     \<exists>a b p' r'. s = a @ b \<and> (p', r', m) \<in> set (ms r (a, b, []))"
proof -
  assume "re_match r s = Some m"
  then obtain p0 p' r' where "search r [] s = Some (p0, p', r', m)"
    unfolding re_match_def by (auto split: option.splits)
  from search_Some [OF this] obtain a b where "p0 = a" "s = a @ b"
    "(p', r', m) \<in> set (ms r (p0, b, []))" by auto
  then show ?thesis by blast
qed

lemma frontmatter_match_shape:
  assumes "re_match frontmatter_re c = Some m"
  shows "\<exists>y z. c = js ''---'' @ [10] @ y @ [10] @ js ''---'' @ z \<and> group m 1 = Some y"
proof -
  from re_match_Some [OF assms] obtain a b p' r' where c: "c = a @ b"
    and m: "(p', r', m) \<in> set (ms frontmatter_re (a, b, []))" by blast
  from m obtain s1 where 1: "s1 \<in> set (ms Bol (a, b, []))"
    and m1: "(p', r', m) \<in> set (ms (Seq (Lit (js ''---'' @ [10]))
       (Seq (Grp 1 (Star False (Cls (\<lambda>c. is_space c \<or> \<not> is_space c))))
         (Lit ([10] @ js ''---'')))) s1)"
    unfolding frontmatter_re_def by (blast dest: ms_SeqE)
  from 1 have a: "a = []" and s1: "s1 = ([], b, [])"
    by (cases s1; auto split: if_splits)+
  from m1 obtain s2 where 2: "s2 \<in> set (ms (Lit (js ''---'' @ [10])) s1)"
    and m2: "(p', r', m) \<in> set (ms (Seq (Grp 1 (Star False (Cls (\<lambda>c. is_space c \<or> \<not> is_space c))))
         (Lit ([10] @ js ''---''))) s2)"
    by (blast dest: ms_SeqE)
  obtain p2 r2 c2 where s2: "s2 = (p2, r2, c2)" by (cases s2)
  from ms_LitE [OF 2 [unfolded s1 s2]] have l2: "p2 = js ''---'' @ [10]" "b = (js ''---'' @ [10]) @ r2" "c2 = []"
    by simp_all
  from m2 obtain s3 where 3: "s3 \<in> set (ms (Grp 1 (Star False (Cls (\<lambda>c. is_space c \<or> \<not> is_space c)))) s2)"
    and m3: "(p', r', m) \<in> set (ms (Lit ([10] @ js ''---'')) s3)"
    by (blast dest: ms_SeqE)
  obtain p3 r3 c3 where s3: "s3 = (p3, r3, c3)" by (cases s3)
  from ms_GrpE [OF 3 [unfolded s2 s3]] obtain c0 where
    g: "(p3, r3, c0) \<in> set (ms (Star False (Cls (\<lambda>c. is_space c \<or> \<not> is_space c))) (p2, r2, c2))"
    and c3: "c3 = (1, drop (length p2) p3) # c0" by blast
  from ms_inv [OF g] obtain y where y: "p3 = p2 @ y" "r2 = y @ r3" by blast
  from ms_LitE [OF m3 [unfolded s3]] have l3: "r3 = ([10] @ js ''---'') @ r'" "m = c3" by simp_all
  from c3 y l3 have "group m 1 = Some y" by (simp add: group_def)
  moreover from c a l2 y l3 have "c = js ''---'' @ [10] @ y @ [10] @ js ''---'' @ r'" by simp
  ultimately show ?thesis by blast
qed

lemma url_line_match_shape:
  assumes "re_match url_line_re line = Some m"
  shows "\<exists>u x y. group m 1 = Some u \<and> line = js ''url:'' @ x @ u @ y"
proof -
  from re_match_Some [OF assms] obtain a b p' r' where c: "line = a @ b"
    and m: "(p', r', m) \<in> set (ms url_line_re (a, b, []))" by blast
  from m obtain s1 where 1: "s1 \<in> set (ms Bol (a, b, []))"
    and m1: "(p', r', m) \<in> set (ms (Seq (Lit (js ''url:'')) (Seq (Star True (Cls is_space))
       (Seq (Opt (Lit [34])) (Seq (Grp 1 (Star True (Cls (\<lambda>c. c \<noteq> 34))))
         (Seq (Opt (Lit [34])) (Seq (Star True (Cls is_space)) Eol)))))) s1)"
    unfolding url_line_re_def by (blast dest: ms_SeqE)
  from 1 have a: "a = []" and s1: "s1 = ([], b, [])"
    by (cases s1; auto split: if_splits)+
  from m1 obtain s2 where 2: "s2 \<in> set (ms (Lit (js ''url:'')) s1)"
    and m2: "(p', r', m) \<in> set (ms (Seq (Star True (Cls is_space))
       (Seq (Opt (Lit [34])) (Seq (Grp 1 (Star True (Cls (\<lambda>c. c \<noteq> 34))))
         (Seq (Opt (Lit [34])) (Seq (Star True (Cls is_space)) Eol))))) s2)"
    by (blast dest: ms_SeqE)
  obtain p2 r2 c2 where s2: "s2 = (p2, r2, c2)" by (cases s2)
  from ms_LitE [OF 2 [unfolded s1 s2]] have l2: "p2 = js ''url:''" "b = js ''url:'' @ r2" "c2 = []"
    by simp_all
  from m2 obtain s3 where 3: "s3 \<in> set (ms (Star True (Cls is_space)) s2)"
    and m3: "(p', r', m) \<in> set (ms (Seq (Opt (Lit [34])) (Seq (Grp 1 (Star True (Cls (\<lambda>c. c \<noteq> 34))))
         (Seq (Opt (Lit [34])) (Seq (Star True (Cls is_space)) Eol)))) s3)"
    by (blast dest: ms_SeqE)
  obtain p3 r3 c3 where s3: "s3 = (p3, r3, c3)" by (cases s3)
  from ms_inv [OF 3 [unfolded s2 s3]] obtain x3 n3 where l3: "p3 = p2 @ x3" "r2 = x3 @ r3" by blast
  from m3 obtain s4 where 4: "s4 \<in> set (ms (Opt (Lit [34])) s3)"
    and m4: "(p', r', m) \<in> set (ms (Seq (Grp 1 (Star True (Cls (\<lambda>c. c \<noteq> 34))))
         (Seq (Opt (Lit [34])) (Seq (Star True (Cls is_space)) Eol))) s4)"
    by (blast dest: ms_SeqE)
  obtain p4 r4 c4 where s4: "s4 = (p4, r4, c4)" by (cases s4)
  from ms_inv [OF 4 [unfolded s3 s4]] obtain x4 where l4: "p4 = p3 @ x4" "r3 = x4 @ r4" by blast
  from m4 obtain s5 where 5: "s5 \<in> set (ms (Grp 1 (Star True (Cls (\<lambda>c. c \<noteq> 34)))) s4)"
    and m5: "(p', r', m) \<in> set (ms (Seq (Opt (Lit [34])) (Seq (Star True (Cls is_space)) Eol)) s5)"
    by (blast dest: ms_SeqE)
  obtain p5 r5 c5 where s5: "s5 = (p5, r5, c5)" by (cases s5)
  from ms_GrpE [OF 5 [unfolded s4 s5]] obtain c0 where
    g: "(p5, r5, c0) \<in> set (ms (Star True (Cls (\<lambda>c. c \<noteq> 34))) (p4, r4, c4))"
    and c5: "c5 = (1, drop (length p4) p5) # c0" by blast
  from ms_Star_ClsE [OF g] obtain u where u: "p5 = p4 @ u" "r4 = u @ r5" "c0 = c4" by blast
  have keep: "\<And>q r0 cq q' r0' cq'. (q', r0', cq') \<in> set (ms (Seq (Opt (Lit [34])) (Seq (Star True (Cls is_space)) Eol)) (q, r0, cq))
     \<Longrightarrow> cq' = cq"
  proof -
    fix q r0 cq q' r0' cq'
    assume h: "(q', r0', cq') \<in> set (ms (Seq (Opt (Lit [34])) (Seq (Star True (Cls is_space)) Eol)) (q, r0, cq))"
    then obtain t1 where t1: "t1 \<in> set (ms (Opt (Lit [34])) (q, r0, cq))"
      and h1: "(q', r0', cq') \<in> set (ms (Seq (Star True (Cls is_space)) Eol) t1)"
      by (blast dest: ms_SeqE)
    obtain q1 r1 cq1 where t1e: "t1 = (q1, r1, cq1)" by (cases t1)
    from t1 t1e have c1: "cq1 = cq"
      by (auto simp: Opt_def split: if_splits)
    from h1 obtain t2 where t2: "t2 \<in> set (ms (Star True (Cls is_space)) t1)"
      and h2: "(q', r0', cq') \<in> set (ms Eol t2)"
      by (blast dest: ms_SeqE)
    obtain q2 r2' cq2 where t2e: "t2 = (q2, r2', cq2)" by (cases t2)
    from ms_Star_ClsE [OF t2 [unfolded t1e t2e]] have c2: "cq2 = cq1" by blast
    from ms_EolE [OF h2 [unfolded t2e]] have "cq' = cq2" by simp
    with c1 c2 show "cq' = cq" by simp
  qed
  from keep [OF m5 [unfolded s5]] have mc: "m = c5" .
  from c5 u mc have "group m 1 = Some u" by (simp add: group_def)
  moreover from c a l2 l3 l4 u have "line = js ''url:'' @ (x3 @ x4) @ u @ r5" by simp
  ultimately show ?thesis by blast
qed


lemma issue_url_ms_shape:
  assumes m: "(p', r', m) \<in> set (ms issue_url_re (a, b, []))"
  shows "\<exists>owner rname ds.
     b = [47] @ owner @ [47] @ rname @ js ''/issues/'' @ ds @ r'
     \<and> owner \<noteq> [] \<and> rname \<noteq> [] \<and> ds \<noteq> []
     \<and> 47 \<notin> set owner \<and> 47 \<notin> set rname \<and> (\<forall>d \<in> set ds. is_digit d)
     \<and> group m 1 = Some owner \<and> group m 2 = Some rname \<and> group m 3 = Some ds"
proof -
  from m obtain s1 where 1: "s1 \<in> set (ms (Lit [47]) (a, b, []))"
    and m1: "(p', r', m) \<in> set (ms (Seq (Grp 1 (Plus (Cls (\<lambda>c. c \<noteq> 47))))
       (Seq (Lit [47]) (Seq (Grp 2 (Plus (Cls (\<lambda>c. c \<noteq> 47))))
         (Seq (Lit (js ''/issues/'')) (Grp 3 (Plus (Cls is_digit))))))) s1)"
    unfolding issue_url_re_def by (blast dest: ms_SeqE)
  obtain p1 r1 c1 where s1: "s1 = (p1, r1, c1)" by (cases s1)
  from ms_LitE [OF 1 [unfolded s1]] have l1: "p1 = a @ [47]" "b = [47] @ r1" "c1 = []"
    by simp_all
  from m1 obtain s2 where 2: "s2 \<in> set (ms (Grp 1 (Plus (Cls (\<lambda>c. c \<noteq> 47)))) s1)"
    and m2: "(p', r', m) \<in> set (ms (Seq (Lit [47]) (Seq (Grp 2 (Plus (Cls (\<lambda>c. c \<noteq> 47))))
         (Seq (Lit (js ''/issues/'')) (Grp 3 (Plus (Cls is_digit)))))) s2)"
    by (blast dest: ms_SeqE)
  obtain p2 r2 c2 where s2: "s2 = (p2, r2, c2)" by (cases s2)
  from ms_GrpE [OF 2 [unfolded s1 s2]] obtain c0 where
    g2: "(p2, r2, c0) \<in> set (ms (Plus (Cls (\<lambda>c. c \<noteq> 47))) (p1, r1, c1))"
    and c2: "c2 = (1, drop (length p1) p2) # c0" by blast
  from ms_Plus_ClsE [OF g2] obtain owner where o: "p2 = p1 @ owner" "r1 = owner @ r2" "c0 = c1"
    "owner \<noteq> []" "\<forall>x \<in> set owner. x \<noteq> 47" by blast
  from m2 obtain s3 where 3: "s3 \<in> set (ms (Lit [47]) s2)"
    and m3: "(p', r', m) \<in> set (ms (Seq (Grp 2 (Plus (Cls (\<lambda>c. c \<noteq> 47))))
         (Seq (Lit (js ''/issues/'')) (Grp 3 (Plus (Cls is_digit))))) s3)"
    by (blast dest: ms_SeqE)
  obtain p3 r3 c3 where s3: "s3 = (p3, r3, c3)" by (cases s3)
  from ms_LitE [OF 3 [unfolded s2 s3]] have l3: "p3 = p2 @ [47]" "r2 = [47] @ r3" "c3 = c2"
    by simp_all
  from m3 obtain s4 where 4: "s4 \<in> set (ms (Grp 2 (Plus (Cls (\<lambda>c. c \<noteq> 47)))) s3)"
    and m4: "(p', r', m) \<in> set (ms (Seq (Lit (js ''/issues/'')) (Grp 3 (Plus (Cls is_digit)))) s4)"
    by (blast dest: ms_SeqE)
  obtain p4 r4 c4 where s4: "s4 = (p4, r4, c4)" by (cases s4)
  from ms_GrpE [OF 4 [unfolded s3 s4]] obtain c0' where
    g4: "(p4, r4, c0') \<in> set (ms (Plus (Cls (\<lambda>c. c \<noteq> 47))) (p3, r3, c3))"
    and c4: "c4 = (2, drop (length p3) p4) # c0'" by blast
  from ms_Plus_ClsE [OF g4] obtain rname where rn: "p4 = p3 @ rname" "r3 = rname @ r4" "c0' = c3"
    "rname \<noteq> []" "\<forall>x \<in> set rname. x \<noteq> 47" by blast
  from m4 obtain s5 where 5: "s5 \<in> set (ms (Lit (js ''/issues/'')) s4)"
    and m5: "(p', r', m) \<in> set (ms (Grp 3 (Plus (Cls is_digit))) s5)"
    by (blast dest: ms_SeqE)
  obtain p5 r5 c5 where s5: "s5 = (p5, r5, c5)" by (cases s5)
  from ms_LitE [OF 5 [unfolded s4 s5]] have l5: "p5 = p4 @ js ''/issues/''"
    "r4 = js ''/issues/'' @ r5" "c5 = c4"
    by simp_all
  from ms_GrpE [OF m5 [unfolded s5]] obtain c0'' where
    g6: "(p', r', c0'') \<in> set (ms (Plus (Cls is_digit)) (p5, r5, c5))"
    and c6: "m = (3, drop (length p5) p') # c0''" by blast
  from ms_Plus_ClsE [OF g6] obtain ds where ds: "p' = p5 @ ds" "r5 = ds @ r'" "c0'' = c5"
    "ds \<noteq> []" "\<forall>x \<in> set ds. is_digit x" by blast
  have g3: "group m 3 = Some ds"
    by (simp add: group_def c6 ds(1))
  have g2': "group m 2 = Some rname"
    by (simp add: group_def c6 ds(3) l5(3) c4 rn(1))
  have g1: "group m 1 = Some owner"
    by (simp add: group_def c6 ds(3) l5(3) c4 rn(3) l3(3) c2 o(1))
  have "b = [47] @ owner @ [47] @ rname @ js ''/issues/'' @ ds @ r'"
    using l1 o l3 rn l5 ds by simp
  moreover have "47 \<notin> set owner" "47 \<notin> set rname" using o rn by auto
  ultimately show ?thesis using o(4) rn(4) ds(4,5) g1 g2' g3 by blast
qed

lemma issue_url_match_shape:
  assumes "re_match issue_url_re u = Some m"
  shows "\<exists>a owner rname ds b.
     u = a @ [47] @ owner @ [47] @ rname @ js ''/issues/'' @ ds @ b
     \<and> owner \<noteq> [] \<and> rname \<noteq> [] \<and> ds \<noteq> []
     \<and> 47 \<notin> set owner \<and> 47 \<notin> set rname \<and> (\<forall>d \<in> set ds. is_digit d)
     \<and> group m 1 = Some owner \<and> group m 2 = Some rname \<and> group m 3 = Some ds"
proof -
  from re_match_Some [OF assms] obtain a b p' r' where c: "u = a @ b"
    and m: "(p', r', m) \<in> set (ms issue_url_re (a, b, []))" by blast
  from issue_url_ms_shape [OF m] obtain owner rname ds where
    s: "b = [47] @ owner @ [47] @ rname @ js ''/issues/'' @ ds @ r'"
      "owner \<noteq> []" "rname \<noteq> []" "ds \<noteq> []" "47 \<notin> set owner" "47 \<notin> set rname"
      "\<forall>d \<in> set ds. is_digit d"
      "group m 1 = Some owner" "group m 2 = Some rname" "group m 3 = Some ds" by blast
  from c s(1) have "u = a @ [47] @ owner @ [47] @ rname @ js ''/issues/'' @ ds @ r'" by simp
  with s(2-10) show ?thesis by blast
qed

lemma split_on_append_sep:
  "split_on sep (a @ sep # b) = split_on sep a @ split_on sep b"
proof (induction a)
  case Nil
  then show ?case by (simp add: Let_def)
next
  case (Cons x a)
  then show ?case
    by (cases "split_on sep a") (auto simp: Let_def)
qed

lemma split_on_hd_prefix: "\<exists>b. s = hd (split_on sep s) @ b"
  by (induction s) (auto simp: Let_def)

lemma split_on_sublist:
  "line \<in> set (split_on sep s) \<Longrightarrow> \<exists>a b. s = a @ line @ b"
proof (induction s arbitrary: line)
  case Nil
  then show ?case by simp
next
  case (Cons c s)
  obtain l ls where sp: "split_on sep s = l # ls" by (cases "split_on sep s") simp_all
  from split_on_hd_prefix [of s sep] sp obtain b0 where b0: "s = l @ b0" by auto
  from Cons.prems sp have "line = [] \<or> line = c # l \<or> line \<in> set (split_on sep s)"
    by (auto simp: Let_def split: if_splits)
  then consider "line = []" | "line = c # l" | "line \<in> set (split_on sep s)" by blast
  then show ?case
  proof cases
    case 1
    then have "c # s = [] @ line @ (c # s)" by simp
    then show ?thesis by blast
  next
    case 2
    with b0 have "c # s = [] @ line @ b0" by simp
    then show ?thesis by blast
  next
    case 3
    from Cons.IH [OF this] obtain a b where "s = a @ line @ b" by blast
    then have "c # s = (c # a) @ line @ b" by simp
    then show ?thesis by blast
  qed
qed

lemma find_url_Some:
  "find_url ls = Some u \<Longrightarrow> \<exists>line \<in> set ls. \<exists>x y. line = js ''url:'' @ x @ u @ y"
proof (induction ls)
  case Nil
  then show ?case by simp
next
  case (Cons line ls)
  show ?case
  proof (cases "re_match url_line_re line")
    case None
    with Cons show ?thesis by auto
  next
    case (Some m)
    with Cons.prems have "group m 1 = Some u" by simp
    with url_line_match_shape [OF Some] have "\<exists>x y. line = js ''url:'' @ x @ u @ y" by auto
    then show ?thesis by auto
  qed
qed

lemma find_url_None:
  "\<forall>line \<in> set ls. \<not> prefix (js ''url:'') line \<Longrightarrow> find_url ls = None"
proof (induction ls)
  case Nil
  then show ?case by simp
next
  case (Cons line ls)
  have "re_match url_line_re line = None"
  proof (cases "re_match url_line_re line")
    case (Some m)
    from url_line_match_shape [OF Some] have "prefix (js ''url:'') line" by (auto simp: prefix_def)
    with Cons.prems show ?thesis by simp
  qed simp
  with Cons show ?case by simp
qed

lemma header_lines:
  "set (split_on 10 y) \<subseteq> set (split_on 10 (js ''---'' @ [10] @ y @ [10] @ js ''---'' @ z))"
proof -
  have "split_on 10 (js ''---'' @ [10] @ y @ [10] @ js ''---'' @ z)
      = split_on 10 (js ''---'') @ split_on 10 (y @ 10 # (js ''---'' @ z))"
    using split_on_append_sep [of 10 "js ''---''" "y @ [10] @ js ''---'' @ z"] by simp
  also have "split_on 10 (y @ 10 # (js ''---'' @ z)) = split_on 10 y @ split_on 10 (js ''---'' @ z)"
    by (rule split_on_append_sep)
  finally show ?thesis by auto
qed

lemma parseFrontmatter_Some:
  assumes "parseFrontmatter c = Inr (Some fm)"
  obtains y z line x1 x2 a owner rname ds b where
     "c = js ''---'' @ [10] @ y @ [10] @ js ''---'' @ z"
     "line \<in> set (split_on 10 y)"
     "line = js ''url:'' @ x1 @ fm_url fm @ x2"
     "fm_url fm = a @ [47] @ owner @ [47] @ rname @ js ''/issues/'' @ ds @ b"
     "owner \<noteq> []" "rname \<noteq> []" "ds \<noteq> []"
     "47 \<notin> set owner" "47 \<notin> set rname" "\<forall>d \<in> set ds. is_digit d"
     "repo fm = owner @ js ''/'' @ rname" "issue_number fm = parseInt ds"
proof -
  from assms obtain m where m: "re_match frontmatter_re c = Some m"
    unfolding parseFrontmatter_def by (auto split: option.splits)
  from frontmatter_match_shape [OF m] obtain y z where
    c: "c = js ''---'' @ [10] @ y @ [10] @ js ''---'' @ z" and y: "group m 1 = Some y" by blast
  from assms m y obtain u where u: "find_url (split_on 10 y) = Some u"
    unfolding parseFrontmatter_def by (auto split: option.splits)
  from assms m y u obtain um where um: "re_match issue_url_re u = Some um" and ne: "u \<noteq> []"
    unfolding parseFrontmatter_def by (auto split: option.splits if_splits)
  from assms m y u um ne have fm: "fm = \<lparr>fm_url = u,
      repo = tmpl (group um 1) @ js ''/'' @ tmpl (group um 2),
      issue_number = parseInt (tmpl (group um 3))\<rparr>"
    unfolding parseFrontmatter_def by simp
  from find_url_Some [OF u] obtain line x1 x2 where line: "line \<in> set (split_on 10 y)"
    "line = js ''url:'' @ x1 @ u @ x2" by blast
  from issue_url_match_shape [OF um] obtain a owner rname ds b where
    s: "u = a @ [47] @ owner @ [47] @ rname @ js ''/issues/'' @ ds @ b"
      "owner \<noteq> []" "rname \<noteq> []" "ds \<noteq> []" "47 \<notin> set owner" "47 \<notin> set rname"
      "\<forall>d \<in> set ds. is_digit d"
      "group um 1 = Some owner" "group um 2 = Some rname" "group um 3 = Some ds" by blast
  have f: "fm_url fm = u" "repo fm = owner @ js ''/'' @ rname" "issue_number fm = parseInt ds"
    using fm s(8-10) by (simp_all add: tmpl_def)
  show thesis
  proof (rule that)
    show "c = js ''---'' @ [10] @ y @ [10] @ js ''---'' @ z" by (rule c)
    show "line \<in> set (split_on 10 y)" by (rule line(1))
    show "line = js ''url:'' @ x1 @ fm_url fm @ x2" using line(2) f(1) by simp
    show "fm_url fm = a @ [47] @ owner @ [47] @ rname @ js ''/issues/'' @ ds @ b"
      using s(1) f(1) by simp
  qed (use s f in simp_all)
qed

text \<open>The only read that could throw, \<open>frontmatterMatch[1].split\<close>, always finds the
  group defined.\<close>

lemma parseFrontmatter_Inr: "\<exists>r. parseFrontmatter c = Inr r"
proof (cases "re_match frontmatter_re c")
  case None
  then show ?thesis by (simp add: parseFrontmatter_def)
next
  case (Some m)
  from frontmatter_match_shape [OF Some] obtain y where "group m 1 = Some y" by blast
  with Some show ?thesis
    by (simp add: parseFrontmatter_def split: option.splits)
qed

text \<open>A content that parses to a record has a header block, a \<open>url:\<close> line and the
  shape of an issue URL.\<close>

lemma parseFrontmatter_Some_shape:
  assumes "parseFrontmatter c = Inr (Some fm)"
  shows "has_header_block c \<and> has_url_field c \<and> has_issue_shape c"
proof -
  from assms obtain y z line x1 x2 a owner rname ds b where
    c: "c = js ''---'' @ [10] @ y @ [10] @ js ''---'' @ z"
    and line: "line \<in> set (split_on 10 y)" "line = js ''url:'' @ x1 @ fm_url fm @ x2"
    and u: "fm_url fm = a @ [47] @ owner @ [47] @ rname @ js ''/issues/'' @ ds @ b"
    and ne: "owner \<noteq> []" "rname \<noteq> []" "ds \<noteq> []"
    and cl: "47 \<notin> set owner" "47 \<notin> set rname" "\<forall>d \<in> set ds. is_digit d"
    by (rule parseFrontmatter_Some)
  from c have 1: "has_header_block c" unfolding has_header_block_def by blast
  from line(1) header_lines [of y z] c have "line \<in> set (split_on 10 c)" by auto
  moreover from line(2) have "prefix (js ''url:'') line" by (simp add: prefix_def)
  ultimately have 2: "has_url_field c" unfolding has_url_field_def by blast
  from split_on_sublist [OF line(1)] obtain ya yb where y: "y = ya @ line @ yb" by blast
  from ne(3) obtain d ds' where ds: "ds = d # ds'" by (cases ds) simp_all
  with cl(3) have d: "is_digit d" by simp
  have "c = (js ''---'' @ [10] @ ya @ js ''url:'' @ x1 @ a) @ [47] @ owner @ [47] @ rname
      @ js ''/issues/'' @ [d] @ (ds' @ b @ x2 @ yb @ [10] @ js ''---'' @ z)"
    by (simp add: c y line(2) u ds)
  then have 3: "has_issue_shape c" unfolding has_issue_shape_def
    using ne(1,2) cl(1,2) d by (intro exI conjI) assumption+
  from 1 2 3 show ?thesis by simp
qed




subsection \<open>The match the engine reports\<close>

text \<open>\<open>hd_ms r st\<close> is the first way \<open>r\<close> matches from \<open>st\<close>: the one a backtracking
  engine reports when nothing after \<open>r\<close> makes it backtrack.\<close>

definition hd_ms :: "re \<Rightarrow> mstate \<Rightarrow> mstate option" where
  "hd_ms r st = (case ms r st of [] \<Rightarrow> None | x # _ \<Rightarrow> Some x)"

lemma hd_ms_Seq:
  "hd_ms r1 st = Some s1 \<Longrightarrow> hd_ms r2 s1 = Some s2 \<Longrightarrow> hd_ms (Seq r1 r2) st = Some s2"
  by (auto simp: hd_ms_def split: list.splits)

lemma hd_ms_Lit: "hd_ms (Lit w) (p, w @ r, c) = Some (p @ w, r, c)"
  by (simp add: hd_ms_def)

lemma hd_ms_Bol: "hd_ms Bol ([], r, c) = Some ([], r, c)"
  by (simp add: hd_ms_def)

lemma hd_ms_Eol: "hd_ms Eol (p, [], c) = Some (p, [], c)"
  by (simp add: hd_ms_def)

lemma hd_ms_Opt_Lit: "hd_ms (Opt (Lit w)) (p, w @ r, c) = Some (p @ w, r, c)"
  by (simp add: hd_ms_def Opt_def)

lemma hd_ms_Grp:
  "hd_ms r0 (p, r, c) = Some (p @ a, r', c') \<Longrightarrow>
   hd_ms (Grp n r0) (p, r, c) = Some (p @ a, r', (n, a) # c')"
  by (auto simp: hd_ms_def split: list.splits)

lemma search_hd:
  "hd_ms r (pre, rest, []) = Some st \<Longrightarrow> search r pre rest = Some (pre, st)"
  by (cases rest) (auto simp: hd_ms_def split: list.splits)

lemma search_skip:
  "(\<And>k. k < length a \<Longrightarrow> ms r (pre @ take k a, drop k a @ b, []) = []) \<Longrightarrow>
   search r pre (a @ b) = search r (pre @ a) b"
proof (induction a arbitrary: pre)
  case Nil
  then show ?case by simp
next
  case (Cons x a)
  from Cons.prems [of 0] have 0: "ms r (pre, x # a @ b, []) = []" by simp
  have "search r (pre @ [x]) (a @ b) = search r ((pre @ [x]) @ a) b"
  proof (rule Cons.IH)
    fix k assume "k < length a"
    with Cons.prems [of "Suc k"] show "ms r ((pre @ [x]) @ take k a, drop k a @ b, []) = []"
      by simp
  qed
  with 0 show ?case by simp
qed

text \<open>The ways a star over a character class matches: every prefix of the longest run of
  the class, the longest first when greedy, the shortest first when lazy.\<close>

lemma upt_0_Suc: "[0..<Suc n] = 0 # map Suc [0..<n]"
proof -
  have "[0..<Suc n] = 0 # [Suc 0..<Suc n]" by (rule upt_conv_Cons) simp
  also have "[Suc 0..<Suc n] = map Suc [0..<n]" by (rule map_Suc_upt [symmetric])
  finally show ?thesis .
qed

lemma star_iter_Cls:
  "length r \<le> n \<Longrightarrow>
   star_iter (ms (Cls P)) g n (p, r, c) =
     (let l = map (\<lambda>k. (p @ take k r, drop k r, c)) [0..<Suc (length (takeWhile P r))]
      in if g then rev l else l)"
proof (induction n arbitrary: p r)
  case 0
  then show ?case by (simp add: Let_def)
next
  case (Suc n)
  show ?case
  proof (cases r)
    case Nil
    then show ?thesis by (simp add: Let_def)
  next
    case (Cons x r')
    show ?thesis
    proof (cases "P x")
      case False
      with Cons show ?thesis by (simp add: Let_def)
    next
      case True
      from Suc.prems Cons have len: "length r' \<le> n" by simp
      have up: "[0..<Suc (Suc (length (takeWhile P r')))]
          = 0 # map Suc [0..<Suc (length (takeWhile P r'))]"
        by (rule upt_0_Suc)
      show ?thesis
        using True Cons Suc.IH [OF len, of "p @ [x]"]
        by (simp add: Let_def up comp_def del: upt_Suc)
    qed
  qed
qed

lemma ms_Star_Cls:
  "ms (Star g (Cls P)) (p, r, c) =
     (let l = map (\<lambda>k. (p @ take k r, drop k r, c)) [0..<Suc (length (takeWhile P r))]
      in if g then rev l else l)"
  by (simp add: star_iter_Cls)

lemma hd_ms_Star_greedy:
  assumes "\<forall>x \<in> set a. P x" and "r = [] \<or> \<not> P (hd r)"
  shows "hd_ms (Star True (Cls P)) (p, a @ r, c) = Some (p @ a, r, c)"
proof -
  from assms have tw: "takeWhile P (a @ r) = a"
    by (cases r) (auto simp: takeWhile_append)
  show ?thesis
    unfolding hd_ms_def ms_Star_Cls tw
    by (simp add: Let_def)
qed

lemma hd_ms_Plus_greedy:
  assumes "\<forall>x \<in> set a. P x" and "a \<noteq> []" and "r = [] \<or> \<not> P (hd r)"
  shows "hd_ms (Plus (Cls P)) (p, a @ r, c) = Some (p @ a, r, c)"
proof -
  from assms(2) obtain x a' where a: "a = x # a'" by (cases a) simp_all
  with assms(1) have x: "P x" and a': "\<forall>x \<in> set a'. P x" by simp_all
  have 1: "hd_ms (Cls P) (p, a @ r, c) = Some (p @ [x], a' @ r, c)"
    using x a by (simp add: hd_ms_def)
  have 2: "hd_ms (Star True (Cls P)) (p @ [x], a' @ r, c) = Some ((p @ [x]) @ a', r, c)"
    by (rule hd_ms_Star_greedy [OF a' assms(3)])
  from hd_ms_Seq [OF 1 2] a show ?thesis by (simp add: Plus_def)
qed


lemma concat_map_first:
  assumes "j \<le> m" and "\<And>k. k < j \<Longrightarrow> G k = []" and "G j = x # xs"
  shows "\<exists>ys. concat (map G [0..<Suc m]) = x # ys"
proof -
  have "[0..<Suc m] = [0..<j] @ [j..<Suc m]"
    using upt_add_eq_append [of 0 j "Suc m - j"] assms(1) by simp
  moreover have "[j..<Suc m] = j # [Suc j..<Suc m]"
    using assms(1) by (intro upt_conv_Cons) simp
  moreover have "concat (map G [0..<j]) = []"
    using assms(2) by simp
  ultimately have "concat (map G [0..<Suc m]) = x # xs @ concat (map G [Suc j..<Suc m])"
    using assms(3) by simp
  then show ?thesis by blast
qed

text \<open>A lazy \<open>[\s\S]*?\<close> in a group, followed by a literal: the group takes the text up to
  the first place where the literal stands.\<close>

lemma hd_ms_lazy_until:
  assumes "w \<noteq> []" and "hd w \<notin> set y"
  shows "hd_ms (Seq (Grp n (Star False (Cls (\<lambda>c. is_space c \<or> \<not> is_space c)))) (Lit w))
           (p, y @ w @ z, c) = Some (p @ y @ w, z, (n, y) # c)"
proof -
  let ?r = "y @ w @ z"
  let ?G = "\<lambda>k. ms (Lit w) (p @ take k ?r, drop k ?r, (n, take k ?r) # c)"
  have tw: "takeWhile (\<lambda>c. is_space c \<or> \<not> is_space c) ?r = ?r" by simp
  have ms: "ms (Seq (Grp n (Star False (Cls (\<lambda>c. is_space c \<or> \<not> is_space c)))) (Lit w))
      (p, ?r, c) = concat (map ?G [0..<Suc (length ?r)])"
    by (simp only: ms.simps(3) ms.simps(6) ms_Star_Cls tw Let_def if_False map_map comp_def
        prod.case append_assoc drop_append length_append take_append) simp
  have "\<exists>ys. concat (map ?G [0..<Suc (length ?r)]) = (p @ y @ w, z, (n, y) # c) # ys"
  proof (rule concat_map_first [where j = "length y" and xs = "[]"])
    show "length y \<le> length ?r" by simp
  next
    fix k assume k: "k < length y"
    then obtain x xs where d: "drop k y = x # xs" by (cases "drop k y") simp_all
    then have "x \<in> set y" by (metis in_set_dropD list.set_intros(1))
    with assms have "x \<noteq> hd w" by auto
    with d k assms(1) have "\<not> prefix w (drop k ?r)"
      by (cases w) auto
    then show "?G k = []" by simp
  next
    show "?G (length y) = [(p @ y @ w, z, (n, y) # c)]" by simp
  qed
  with ms show ?thesis by (auto simp: hd_ms_def)
qed

lemma frontmatter_exec:
  assumes "10 \<notin> set y"
  shows "re_match frontmatter_re (js ''---'' @ [10] @ y @ [10] @ js ''---'' @ z) = Some [(1, y)]"
proof -
  let ?c = "js ''---'' @ [10] @ y @ [10] @ js ''---'' @ z"
  have 1: "hd_ms Bol ([], ?c, []) = Some ([], ?c, [])" by (rule hd_ms_Bol)
  have 2: "hd_ms (Lit (js ''---'' @ [10])) ([], ?c, []) = Some (js ''---'' @ [10], y @ ([10] @ js ''---'') @ z, [])"
    using hd_ms_Lit [of "js ''---'' @ [10]" "[]" "y @ ([10] @ js ''---'') @ z" "[]"] by simp
  have 3: "hd_ms (Seq (Grp 1 (Star False (Cls (\<lambda>c. is_space c \<or> \<not> is_space c)))) (Lit ([10] @ js ''---'')))
      (js ''---'' @ [10], y @ ([10] @ js ''---'') @ z, [])
      = Some ((js ''---'' @ [10]) @ y @ ([10] @ js ''---''), z, [(1, y)])"
    by (rule hd_ms_lazy_until) (use assms in simp_all)
  from hd_ms_Seq [OF 1 hd_ms_Seq [OF 2 3]]
  have "hd_ms frontmatter_re ([], ?c, []) = Some ((js ''---'' @ [10]) @ y @ ([10] @ js ''---''), z, [(1, y)])"
    by (simp add: frontmatter_re_def)
  from search_hd [OF this] show ?thesis by (simp add: re_match_def)
qed

lemma url_line_exec:
  assumes "34 \<notin> set u"
  shows "re_match url_line_re (js ''url: '' @ [34] @ u @ [34]) = Some [(1, u)]"
proof -
  let ?l = "js ''url:'' @ [32] @ [34] @ u @ [34]"
  have l: "js ''url: '' @ [34] @ u @ [34] = ?l" by (simp add: js_def)
  have 1: "hd_ms Bol ([], ?l, []) = Some ([], ?l, [])" by (rule hd_ms_Bol)
  have 2: "hd_ms (Lit (js ''url:'')) ([], ?l, []) = Some (js ''url:'', [32] @ [34] @ u @ [34], [])"
    using hd_ms_Lit [of "js ''url:''" "[]" "[32] @ [34] @ u @ [34]" "[]"] by simp
  have 3: "hd_ms (Star True (Cls is_space)) (js ''url:'', [32] @ [34] @ u @ [34], [])
      = Some (js ''url:'' @ [32], [34] @ u @ [34], [])"
    by (rule hd_ms_Star_greedy) (simp_all add: is_space_def)
  have 4: "hd_ms (Opt (Lit [34])) (js ''url:'' @ [32], [34] @ u @ [34], [])
      = Some ((js ''url:'' @ [32]) @ [34], u @ [34], [])"
    by (rule hd_ms_Opt_Lit)
  have 5: "hd_ms (Grp 1 (Star True (Cls (\<lambda>c. c \<noteq> 34)))) ((js ''url:'' @ [32]) @ [34], u @ [34], [])
      = Some (((js ''url:'' @ [32]) @ [34]) @ u, [34], [(1, u)])"
    by (rule hd_ms_Grp, rule hd_ms_Star_greedy) (use assms in auto)
  have 6: "hd_ms (Opt (Lit [34])) (((js ''url:'' @ [32]) @ [34]) @ u, [34], [(1, u)])
      = Some (?l, [], [(1, u)])"
    using hd_ms_Opt_Lit [of "[34]" "((js ''url:'' @ [32]) @ [34]) @ u" "[]" "[(1, u)]"] by simp
  have 7: "hd_ms (Star True (Cls is_space)) (?l, [], [(1, u)]) = Some (?l, [], [(1, u)])"
    using hd_ms_Star_greedy [of "[]" is_space "[]" ?l "[(1, u)]"] by simp
  have 8: "hd_ms Eol (?l, [], [(1, u)]) = Some (?l, [], [(1, u)])" by (rule hd_ms_Eol)
  from hd_ms_Seq [OF 1 hd_ms_Seq [OF 2 hd_ms_Seq [OF 3 hd_ms_Seq [OF 4 hd_ms_Seq [OF 5
       hd_ms_Seq [OF 6 hd_ms_Seq [OF 7 8]]]]]]]
  have "hd_ms url_line_re ([], ?l, []) = Some (?l, [], [(1, u)])"
    by (simp add: url_line_re_def)
  from search_hd [OF this] have "search url_line_re [] ?l = Some ([], ?l, [], [(1, u)])" .
  then show ?thesis unfolding l re_match_def by simp
qed


text \<open>\<open>String(n)\<close> for a natural number below \<open>10^21\<close>: its decimal digits.\<close>

function decimal :: "nat \<Rightarrow> jsstring" where
  "decimal n = (if n < 10 then [48 + n] else decimal (n div 10) @ [48 + n mod 10])"
  by pat_completeness auto
termination
  by (relation "measure id") auto

declare decimal.simps [simp del]

lemma decimal_not_Nil: "decimal n \<noteq> []"
  by (subst decimal.simps) simp

lemma decimal_digits: "\<forall>d \<in> set (decimal n). is_digit d"
proof (induction n rule: decimal.induct)
  case (1 n)
  show ?case
  proof (cases "n < 10")
    case True
    then show ?thesis by (subst decimal.simps) (simp add: is_digit_def)
  next
    case False
    have "n mod 10 < 10" by simp
    then have "is_digit (48 + n mod 10)" unfolding is_digit_def by linarith
    with False 1 show ?thesis by (subst decimal.simps) simp
  qed
qed

lemma parseInt_digits:
  "\<forall>d \<in> set ds. is_digit d \<Longrightarrow> parseInt ds = foldl (\<lambda>a c. 10 * a + (c - 48)) 0 ds"
proof -
  assume "\<forall>d \<in> set ds. is_digit d"
  then have "takeWhile is_digit ds = ds" by (simp add: takeWhile_eq_all_conv)
  then show ?thesis unfolding parseInt_def by (simp only:)
qed

lemma parseInt_decimal: "parseInt (decimal n) = n"
proof -
  have "foldl (\<lambda>a c. 10 * a + (c - 48)) 0 (decimal n) = n"
  proof (induction n rule: decimal.induct)
    case (1 n)
    show ?case
    proof (cases "n < 10")
      case True
      then show ?thesis by (subst decimal.simps) simp
    next
      case False
      with 1 show ?thesis by (subst decimal.simps) simp
    qed
  qed
  with parseInt_digits [OF decimal_digits] show ?thesis by simp
qed

lemma takeWhile_until: "s \<notin> set a \<Longrightarrow> takeWhile (\<lambda>c. c \<noteq> s) (a @ s # x) = a"
  by (induction a) auto

lemma slash_free_unique:
  assumes "a @ 47 # x = b @ 47 # y" and "(47::nat) \<notin> set a" and "47 \<notin> set b"
  shows "a = b \<and> x = y"
proof -
  have "takeWhile (\<lambda>c. c \<noteq> 47) (a @ 47 # x) = a"
    by (rule takeWhile_until) (rule assms(2))
  moreover have "takeWhile (\<lambda>c. c \<noteq> 47) (b @ 47 # y) = b"
    by (rule takeWhile_until) (rule assms(3))
  ultimately have "a = b" using assms(1) by simp
  with assms(1) show ?thesis by simp
qed

lemma issue_url_no_slash: "x \<noteq> 47 \<Longrightarrow> ms issue_url_re (p, x # r, []) = []"
  by (simp add: issue_url_re_def)

lemma issue_url_skip:
  "47 \<notin> set a \<Longrightarrow> search issue_url_re p (a @ b) = search issue_url_re (p @ a) b"
proof (rule search_skip)
  fix k assume "47 \<notin> set a" "k < length a"
  then obtain x xs where d: "drop k a = x # xs" by (cases "drop k a") simp_all
  then have "x \<in> set a" by (metis in_set_dropD list.set_intros(1))
  with \<open>47 \<notin> set a\<close> have "x \<noteq> 47" by auto
  with d show "ms issue_url_re (p @ take k a, drop k a @ b, []) = []"
    by (simp add: issue_url_no_slash)
qed

lemma issue_url_two_slashes: "ms issue_url_re (p, 47 # 47 # r, []) = []"
proof (rule ccontr)
  assume "ms issue_url_re (p, 47 # 47 # r, []) \<noteq> []"
  then obtain p' r' m where "(p', r', m) \<in> set (ms issue_url_re (p, 47 # 47 # r, []))"
    by (cases "ms issue_url_re (p, 47 # 47 # r, [])") auto
  from issue_url_ms_shape [OF this] obtain owner x where "47 # 47 # r = [47] @ owner @ [47] @ x"
    "owner \<noteq> []" "47 \<notin> set owner" by blast
  then show False by (cases owner) auto
qed

lemma issue_url_host:
  assumes "47 \<notin> set host" "47 \<notin> set owner" "47 \<notin> set rname"
  shows "ms issue_url_re (p, 47 # host @ 47 # owner @ 47 # rname @ js ''/issues/'' @ decimal n, []) = []"
proof (rule ccontr)
  let ?b = "47 # host @ 47 # owner @ 47 # rname @ js ''/issues/'' @ decimal n"
  assume "ms issue_url_re (p, ?b, []) \<noteq> []"
  then obtain p' r' m where "(p', r', m) \<in> set (ms issue_url_re (p, ?b, []))"
    by (cases "ms issue_url_re (p, ?b, [])") auto
  from issue_url_ms_shape [OF this] obtain o' n' ds where
    s: "?b = [47] @ o' @ [47] @ n' @ js ''/issues/'' @ ds @ r'"
    "47 \<notin> set o'" "47 \<notin> set n'" "ds \<noteq> []" "\<forall>d \<in> set ds. is_digit d" by blast
  from s(1) have "host @ 47 # (owner @ 47 # rname @ js ''/issues/'' @ decimal n)
      = o' @ 47 # (n' @ js ''/issues/'' @ ds @ r')" by simp
  from slash_free_unique [OF this assms(1) s(2)]
  have "owner @ 47 # (rname @ js ''/issues/'' @ decimal n) = n' @ 47 # (js ''issues/'' @ ds @ r')"
    by (simp add: js_def)
  from slash_free_unique [OF this assms(2) s(3)]
  have "rname @ 47 # (js ''issues/'' @ decimal n) = js ''issues'' @ 47 # (ds @ r')"
    by (simp add: js_def)
  from slash_free_unique [OF this assms(3)]
  have "js ''issues/'' @ decimal n = ds @ r'" by (simp add: js_def)
  with s(4) have "hd ds = 105" by (cases ds) (simp_all add: js_def)
  with s(4,5) show False by (cases ds) (simp_all add: is_digit_def)
qed

lemma issue_url_hit:
  assumes "owner \<noteq> []" "47 \<notin> set owner" "rname \<noteq> []" "47 \<notin> set rname"
  shows "hd_ms issue_url_re (p, [47] @ owner @ [47] @ rname @ js ''/issues/'' @ decimal n, [])
     = Some (p @ [47] @ owner @ [47] @ rname @ js ''/issues/'' @ decimal n, [],
         [(3, decimal n), (2, rname), (1, owner)])"
proof -
  let ?t2 = "[47] @ rname @ js ''/issues/'' @ decimal n"
  let ?t4 = "js ''/issues/'' @ decimal n"
  have 1: "hd_ms (Lit [47]) (p, [47] @ owner @ ?t2, []) = Some (p @ [47], owner @ ?t2, [])"
    by (rule hd_ms_Lit)
  have 2: "hd_ms (Grp 1 (Plus (Cls (\<lambda>c. c \<noteq> 47)))) (p @ [47], owner @ ?t2, [])
      = Some ((p @ [47]) @ owner, ?t2, [(1, owner)])"
    by (rule hd_ms_Grp, rule hd_ms_Plus_greedy) (use assms in auto)
  have 3: "hd_ms (Lit [47]) ((p @ [47]) @ owner, [47] @ rname @ ?t4, [(1, owner)])
      = Some (((p @ [47]) @ owner) @ [47], rname @ ?t4, [(1, owner)])"
    by (rule hd_ms_Lit)
  have 4: "hd_ms (Grp 2 (Plus (Cls (\<lambda>c. c \<noteq> 47)))) (((p @ [47]) @ owner) @ [47], rname @ ?t4, [(1, owner)])
      = Some ((((p @ [47]) @ owner) @ [47]) @ rname, ?t4, [(2, rname), (1, owner)])"
    by (rule hd_ms_Grp, rule hd_ms_Plus_greedy) (use assms in \<open>auto simp: js_def\<close>)
  have 5: "hd_ms (Lit (js ''/issues/'')) ((((p @ [47]) @ owner) @ [47]) @ rname, ?t4, [(2, rname), (1, owner)])
      = Some (((((p @ [47]) @ owner) @ [47]) @ rname) @ js ''/issues/'', decimal n @ [], [(2, rname), (1, owner)])"
    using hd_ms_Lit [of "js ''/issues/''" _ "decimal n"] by simp
  have 6: "hd_ms (Grp 3 (Plus (Cls is_digit))) (((((p @ [47]) @ owner) @ [47]) @ rname) @ js ''/issues/'', decimal n @ [], [(2, rname), (1, owner)])
      = Some ((((((p @ [47]) @ owner) @ [47]) @ rname) @ js ''/issues/'') @ decimal n, [], [(3, decimal n), (2, rname), (1, owner)])"
    by (rule hd_ms_Grp, rule hd_ms_Plus_greedy) (simp_all add: decimal_digits decimal_not_Nil)
  from hd_ms_Seq [OF 1 hd_ms_Seq [OF 2 hd_ms_Seq [OF 3 hd_ms_Seq [OF 4 hd_ms_Seq [OF 5 6]]]]]
  show ?thesis by (simp add: issue_url_re_def)
qed

lemma issue_url_exec:
  assumes "47 \<notin> set scheme" "47 \<notin> set host"
    and "owner \<noteq> []" "47 \<notin> set owner" "rname \<noteq> []" "47 \<notin> set rname"
  shows "re_match issue_url_re
     (scheme @ js ''//'' @ host @ js ''/'' @ owner @ js ''/'' @ rname @ js ''/issues/'' @ decimal n)
     = Some [(3, decimal n), (2, rname), (1, owner)]"
proof -
  let ?t = "[47] @ owner @ [47] @ rname @ js ''/issues/'' @ decimal n"
  have u: "scheme @ js ''//'' @ host @ js ''/'' @ owner @ js ''/'' @ rname @ js ''/issues/'' @ decimal n
      = scheme @ 47 # 47 # host @ ?t" by (simp add: js_def)
  have "search issue_url_re [] (scheme @ 47 # 47 # host @ ?t)
      = search issue_url_re ([] @ scheme) (47 # 47 # host @ ?t)"
    by (rule issue_url_skip) (rule assms(1))
  also have "\<dots> = search issue_url_re (scheme @ [47]) (47 # host @ ?t)"
    by (simp add: issue_url_two_slashes)
  also have "\<dots> = search issue_url_re ((scheme @ [47]) @ [47]) (host @ ?t)"
    using issue_url_host [OF assms(2,4,6), of "scheme @ [47]" n] by simp
  also have "\<dots> = search issue_url_re (((scheme @ [47]) @ [47]) @ host) ?t"
    by (rule issue_url_skip) (rule assms(2))
  also have "\<dots> = Some (((scheme @ [47]) @ [47]) @ host,
      (((scheme @ [47]) @ [47]) @ host) @ ?t, [], [(3, decimal n), (2, rname), (1, owner)])"
    by (rule search_hd, rule issue_url_hit) (rule assms)+
  finally show ?thesis unfolding u re_match_def by simp
qed


text \<open>Parsing a header block that holds one quoted \<open>url\<close> field.\<close>

lemma parseFrontmatter_header:
  assumes u: "u = scheme @ js ''//'' @ host @ js ''/'' @ owner @ js ''/'' @ rname
                 @ js ''/issues/'' @ decimal n"
    and sl: "47 \<notin> set scheme" "47 \<notin> set host" "owner \<noteq> []" "47 \<notin> set owner"
      "rname \<noteq> []" "47 \<notin> set rname"
    and q: "34 \<notin> set u" and nl: "10 \<notin> set u"
  shows "parseFrontmatter (js ''---'' @ [10] @ (js ''url: '' @ [34] @ u @ [34]) @ [10] @ js ''---'' @ tail) =
     Inr (Some \<lparr>fm_url = u, repo = owner @ js ''/'' @ rname, issue_number = n\<rparr>)"
proof -
  let ?y = "js ''url: '' @ [34] @ u @ [34]"
  have "10 \<notin> set ?y" using nl by (simp add: js_def)
  then have 1: "re_match frontmatter_re (js ''---'' @ [10] @ ?y @ [10] @ js ''---'' @ tail) = Some [(1, ?y)]"
    and 2: "split_on 10 ?y = [?y]"
    by (rule frontmatter_exec, rule split_on_no_sep)
  have 3: "find_url [?y] = Some u"
    using url_line_exec [OF q] by (simp add: group_def)
  have 4: "u \<noteq> []" using u by (simp add: js_def)
  have 5: "re_match issue_url_re u = Some [(3, decimal n), (2, rname), (1, owner)]"
    unfolding u by (rule issue_url_exec) (rule sl)+
  have g1: "group [(1, ?y)] 1 = Some ?y" by (simp add: group_def)
  have g5: "tmpl (group [(3, decimal n), (2, rname), (1, owner)] 1) = owner"
    "tmpl (group [(3, decimal n), (2, rname), (1, owner)] 2) = rname"
    "tmpl (group [(3, decimal n), (2, rname), (1, owner)] 3) = decimal n"
    by (simp_all add: group_def tmpl_def)
  show ?thesis
    by (simp only: parseFrontmatter_def 1 option.case g1 2 3 4 if_False 5 g5 parseInt_decimal)
qed

text \<open>
  Claim C3. For an issue whose canonical URL is
  \<open>{scheme}//{host}/{owner}/{repo}/issues/{number}\<close> (no component holds a slash, and the
  URL holds no double quote and no line break), parsing the header that
  generateFrontmatter renders, with any body after it, gives back the URL, the repository
  \<open>owner/repo\<close> and the issue's number.
\<close>

theorem identity_codec_roundtrip:
  assumes "url issue = scheme @ js ''//'' @ host @ js ''/'' @ owner @ js ''/'' @ rname
                 @ js ''/issues/'' @ decimal (number issue)"
    and "47 \<notin> set scheme" "47 \<notin> set host" "owner \<noteq> []" "47 \<notin> set owner"
      "rname \<noteq> []" "47 \<notin> set rname"
    and "34 \<notin> set (url issue)" and "10 \<notin> set (url issue)"
  shows "parseFrontmatter (generateFrontmatter issue @ tail) =
     Inr (Some \<lparr>fm_url = url issue, repo = owner @ js ''/'' @ rname,
                 issue_number = number issue\<rparr>)"
proof -
  have "generateFrontmatter issue @ tail
      = js ''---'' @ [10] @ (js ''url: '' @ [34] @ url issue @ [34]) @ [10] @ js ''---'' @ tail"
    by (simp add: generateFrontmatter_def)
  with parseFrontmatter_header [OF assms, of tail] show ?thesis by simp
qed

theorem identity_codec_roundtrip_witness:
  "parseFrontmatter (generateFrontmatter
      \<lparr>number = 12, title = js ''Fix it'', body = [], repository = js ''o/r'',
       url = js ''https://github.com/o/r/issues/12'', status = js ''Todo'', state = OPEN,
       assignees = [], labels = []\<rparr> @ [10, 10] @ js ''text'')
   = Inr (Some \<lparr>fm_url = js ''https://github.com/o/r/issues/12'', repo = js ''o/r'',
                 issue_number = 12\<rparr>)"
proof -
  have d: "decimal 12 = js ''12''"
    by (simp add: decimal.simps js_def)
  show ?thesis
    using identity_codec_roundtrip [of
      "\<lparr>number = 12, title = js ''Fix it'', body = [], repository = js ''o/r'',
       url = js ''https://github.com/o/r/issues/12'', status = js ''Todo'', state = OPEN,
       assignees = [], labels = []\<rparr>"
      "js ''https:''" "js ''github.com''" "js ''o''" "js ''r''" "[10, 10] @ js ''text''"]
    by (simp add: d js_def)
qed

text \<open>\<open>str.includes(k)\<close> and \<open>list.join(sep)\<close>.\<close>

fun str_includes :: "jsstring \<Rightarrow> jsstring \<Rightarrow> bool" where
  "str_includes [] k = (k = [])"
| "str_includes (c # cs) k = (prefix k (c # cs) \<or> str_includes cs k)"

fun join :: "jsstring \<Rightarrow> jsstring list \<Rightarrow> jsstring" where
  "join sep [] = []"
| "join sep [x] = x"
| "join sep (x # y # ys) = x @ sep @ join sep (y # ys)"

section \<open>Resilient query client\<close>

text \<open>
  What one call of \<open>requestUrl\<close> can do: answer with a status and a body, or throw. A
  thrown value is an \<open>Error\<close> with its message, or a value that is no instance of
  \<open>Error\<close>. Reading the body of a response (\<open>response.json\<close>, \<open>data.errors\<close>) throws when the
  body is not the expected JSON; otherwise it holds the list of error messages and the
  payload \<open>data.data\<close>.
\<close>

datatype thrown = JsError jsstring | NonError

datatype 'a body = Unreadable jsstring | Json "jsstring list" 'a

datatype 'a outcome = Response nat "'a body" | Throws thrown

definition MAX_RETRIES :: nat where
  "MAX_RETRIES = 5"

definition INITIAL_DELAY_MS :: nat where
  "INITIAL_DELAY_MS = 1000"

definition RETRYABLE_STATUS_CODES :: "nat list" where
  "RETRYABLE_STATUS_CODES = [502, 503, 504, 429]"

text \<open>The body of the \<open>try\<close> block for one answer of the network: it returns the payload,
  throws into the \<open>catch\<close> block, or notes a retryable status as the last error and falls
  through to the backoff.\<close>

datatype 'a tried = Returned 'a | Caught thrown | Retryable_status thrown

definition try_body :: "'a outcome \<Rightarrow> 'a tried" where
  "try_body out =
     (case out of
        Throws e \<Rightarrow> Caught e
      | Response st b \<Rightarrow>
          if st = 200 then
            (case b of
               Unreadable msg \<Rightarrow> Caught (JsError msg)
             | Json errors payload \<Rightarrow>
                 if errors \<noteq> []
                 then Caught (JsError (js ''GraphQL errors: '' @ join (js '', '') errors))
                 else Returned payload)
          else if st \<in> set RETRYABLE_STATUS_CODES
            then Retryable_status (JsError (js ''Request failed, status '' @ decimal st))
            else Caught (JsError (js ''GraphQL request failed: '' @ decimal st)))"

definition isRetryable :: "jsstring \<Rightarrow> bool" where
  "isRetryable message \<longleftrightarrow>
     str_includes message (js ''status 502'') \<or> str_includes message (js ''status 503'')
     \<or> str_includes message (js ''status 504'') \<or> str_includes message (js ''status 429'')
     \<or> str_includes message (js ''timeout'') \<or> str_includes message (js ''network'')"

text \<open>What the call leaves behind: its result (the error thrown, or the payload), the number
  of requests it sent, and the delays it slept, in milliseconds.\<close>

record 'a request_result =
  outcome :: "thrown + 'a"
  attempts :: nat
  delays :: "nat list"

function retry_loop ::
  "(nat \<Rightarrow> 'a outcome) \<Rightarrow> nat \<Rightarrow> thrown option \<Rightarrow> nat list \<Rightarrow> 'a request_result" where
  "retry_loop net attempt lastError slept =
     (if attempt < MAX_RETRIES then
        (let backoff = (if attempt < MAX_RETRIES - 1
                        then slept @ [INITIAL_DELAY_MS * 2 ^ attempt] else slept)
         in case try_body (net attempt) of
              Returned payload \<Rightarrow>
                \<lparr>outcome = Inr payload, attempts = attempt + 1, delays = slept\<rparr>
            | Retryable_status e \<Rightarrow> retry_loop net (attempt + 1) (Some e) backoff
            | Caught e \<Rightarrow>
                (case e of
                   JsError message \<Rightarrow>
                     if isRetryable message \<and> attempt < MAX_RETRIES - 1
                     then retry_loop net (attempt + 1) (Some e) backoff
                     else \<lparr>outcome = Inl e, attempts = attempt + 1, delays = slept\<rparr>
                 | NonError \<Rightarrow> \<lparr>outcome = Inl e, attempts = attempt + 1, delays = slept\<rparr>))
      else \<lparr>outcome = Inl (case lastError of Some e \<Rightarrow> e
                              | None \<Rightarrow> JsError (js ''Request failed after retries'')),
            attempts = attempt, delays = slept\<rparr>)"
  by pat_completeness auto
termination
  by (relation "measure (\<lambda>(net, attempt, lastError, slept). MAX_RETRIES - attempt)") auto

declare retry_loop.simps [simp del]

definition graphqlRequest :: "(nat \<Rightarrow> 'a outcome) \<Rightarrow> 'a request_result" where
  "graphqlRequest net = retry_loop net 0 None []"

text \<open>The error an answer of the network makes the client observe, if any.\<close>

definition observed_error :: "'a outcome \<Rightarrow> thrown option" where
  "observed_error out =
     (case try_body out of Returned _ \<Rightarrow> None | Caught e \<Rightarrow> Some e
      | Retryable_status e \<Rightarrow> Some e)"

text \<open>The two ways the client can be told of an HTTP status other than 200: in the
  response, or, as \<open>requestUrl\<close> does by default for an error status, by an \<open>Error\<close> whose
  message names the status.\<close>

definition http_status :: "nat \<Rightarrow> 'a outcome \<Rightarrow> bool" where
  "http_status st out \<longleftrightarrow>
     st \<noteq> 200 \<and> ((\<exists>b. out = Response st b)
       \<or> out = Throws (JsError (js ''Request failed, status '' @ decimal st)))"


subsection \<open>Facts about the retry loop\<close>

lemma retry_loop_attempts:
  "attempt \<le> MAX_RETRIES \<Longrightarrow> attempts (retry_loop net attempt lastError slept) \<le> MAX_RETRIES"
proof (induction net attempt lastError slept rule: retry_loop.induct)
  case (1 net attempt lastError slept)
  show ?case
  proof (cases "attempt < MAX_RETRIES")
    case False
    with "1.prems" show ?thesis by (subst retry_loop.simps) simp
  next
    case True
    then have le: "attempt + 1 \<le> MAX_RETRIES" by simp
    show ?thesis
      using True "1.IH"(2) [OF True refl _ le] "1.IH"(1) [OF True refl _ _ _ le]
      by (subst retry_loop.simps)
        (auto simp: Let_def split: tried.splits thrown.splits)
  qed
qed

lemma retry_loop_last_error:
  assumes "attempt \<le> MAX_RETRIES"
    and "0 < attempt \<Longrightarrow> lastError \<noteq> None \<and> lastError = observed_error (net (attempt - 1))"
    and "outcome (retry_loop net attempt lastError slept) = Inl e"
  shows "observed_error (net (attempts (retry_loop net attempt lastError slept) - 1)) = Some e"
  using assms
proof (induction net attempt lastError slept rule: retry_loop.induct)
  case (1 net attempt lastError slept)
  show ?case
  proof (cases "attempt < MAX_RETRIES")
    case False
    with "1.prems"(1) have a: "attempt = MAX_RETRIES" by simp
    then have "0 < attempt" by (simp add: MAX_RETRIES_def)
    from "1.prems"(2) [OF this] obtain e' where e': "lastError = Some e'"
      "observed_error (net (attempt - 1)) = Some e'" by auto
    with "1.prems"(3) a show ?thesis by (subst (asm) retry_loop.simps, subst retry_loop.simps) simp
  next
    case True
    then have le: "attempt + 1 \<le> MAX_RETRIES" by simp
    show ?thesis
    proof (cases "try_body (net attempt)")
      case (Returned payload)
      with True "1.prems"(3) show ?thesis by (subst (asm) retry_loop.simps) (simp add: Let_def)
    next
      case (Retryable_status e')
      let ?b = "if attempt < MAX_RETRIES - 1 then slept @ [INITIAL_DELAY_MS * 2 ^ attempt] else slept"
      have eq: "retry_loop net attempt lastError slept = retry_loop net (attempt + 1) (Some e') ?b"
        using True Retryable_status by (subst retry_loop.simps) (simp add: Let_def)
      have "observed_error (net (attempts (retry_loop net (attempt + 1) (Some e') ?b) - 1)) = Some e"
      proof (rule "1.IH"(2) [OF True refl Retryable_status le])
        show "Some e' \<noteq> None \<and> Some e' = observed_error (net (attempt + 1 - 1))"
          using Retryable_status by (simp add: observed_error_def)
        show "outcome (retry_loop net (attempt + 1) (Some e') ?b) = Inl e"
          using "1.prems"(3) eq by simp
      qed
      with eq show ?thesis by simp
    next
      case (Caught e')
      show ?thesis
      proof (cases "\<exists>message. e' = JsError message \<and> isRetryable message \<and> attempt < MAX_RETRIES - 1")
        case False
        then have eq: "retry_loop net attempt lastError slept
            = \<lparr>outcome = Inl e', attempts = attempt + 1, delays = slept\<rparr>"
          using True Caught by (subst retry_loop.simps) (auto simp: Let_def split: thrown.splits)
        with "1.prems"(3) have "e = e'" by simp
        with eq Caught show ?thesis by (simp add: observed_error_def)
      next
        case True': True
        then obtain message where m: "e' = JsError message" "isRetryable message"
          "attempt < MAX_RETRIES - 1" by blast
        let ?b = "if attempt < MAX_RETRIES - 1 then slept @ [INITIAL_DELAY_MS * 2 ^ attempt] else slept"
        have eq: "retry_loop net attempt lastError slept = retry_loop net (attempt + 1) (Some e') ?b"
          using True Caught m by (subst retry_loop.simps) (simp add: Let_def)
        have "observed_error (net (attempts (retry_loop net (attempt + 1) (Some e') ?b) - 1)) = Some e"
        proof (rule "1.IH"(1) [OF True refl Caught m(1) _ le])
          show "isRetryable message \<and> attempt < MAX_RETRIES - 1" using m by simp
          show "Some e' \<noteq> None \<and> Some e' = observed_error (net (attempt + 1 - 1))"
            using Caught by (simp add: observed_error_def)
          show "outcome (retry_loop net (attempt + 1) (Some e') ?b) = Inl e"
            using "1.prems"(3) eq by simp
        qed
        with eq show ?thesis by simp
      qed
    qed
  qed
qed


lemma str_includes_digits:
  "\<forall>d \<in> set ds. is_digit d \<Longrightarrow> k \<noteq> [] \<Longrightarrow> \<not> is_digit (hd k) \<Longrightarrow> \<not> str_includes ds k"
  by (induction ds) (auto simp: prefix_def Cons_eq_append_conv)

lemma decimal_no_keyword:
  "\<not> str_includes (decimal st) (js ''status 502'')" "\<not> str_includes (decimal st) (js ''status 503'')"
  "\<not> str_includes (decimal st) (js ''status 504'')" "\<not> str_includes (decimal st) (js ''status 429'')"
  "\<not> str_includes (decimal st) (js ''timeout'')" "\<not> str_includes (decimal st) (js ''network'')"
  by (rule str_includes_digits [OF decimal_digits]; simp add: js_def is_digit_def)+

text \<open>The message of the error for a status that is not retried is never taken for a
  transient one.\<close>

lemma failed_status_not_retryable:
  "\<not> isRetryable (js ''GraphQL request failed: '' @ decimal st)"
  by (simp add: isRetryable_def js_def decimal_no_keyword [unfolded js_def, simplified])

lemma status_503_retryable:
  "isRetryable (js ''Request failed, status '' @ decimal 503)"
  by (simp add: isRetryable_def js_def decimal.simps)

lemma status_404_not_retryable:
  "\<not> isRetryable (js ''Request failed, status '' @ decimal 404)"
  by (simp add: isRetryable_def js_def decimal.simps)

lemma retry_step_503:
  assumes "attempt < 4" and "http_status 503 (net attempt)"
  shows "\<exists>e. retry_loop net attempt lastError slept
     = retry_loop net (attempt + 1) (Some e) (slept @ [1000 * 2 ^ attempt])"
proof -
  from assms(2) consider b where "net attempt = Response 503 b"
    | "net attempt = Throws (JsError (js ''Request failed, status '' @ decimal 503))"
    unfolding http_status_def by blast
  then show ?thesis
  proof cases
    case 1
    then have "try_body (net attempt)
        = Retryable_status (JsError (js ''Request failed, status '' @ decimal 503))"
      by (simp add: try_body_def RETRYABLE_STATUS_CODES_def)
    with assms(1) show ?thesis
      by (subst retry_loop.simps) (auto simp: Let_def MAX_RETRIES_def INITIAL_DELAY_MS_def)
  next
    case 2
    then have "try_body (net attempt)
        = Caught (JsError (js ''Request failed, status '' @ decimal 503))"
      by (simp add: try_body_def)
    with assms(1) status_503_retryable show ?thesis
      by (subst retry_loop.simps) (auto simp: Let_def MAX_RETRIES_def INITIAL_DELAY_MS_def)
  qed
qed

lemma graphqlRequest_503_then_200:
  assumes "\<forall>i<4. http_status 503 (net i)" and "net 4 = Response 200 (Json [] payload)"
  shows "graphqlRequest net
     = \<lparr>outcome = Inr payload, attempts = 5, delays = [1000, 2000, 4000, 8000]\<rparr>"
proof -
  from assms(1) have h: "http_status 503 (net 0)" "http_status 503 (net 1)"
    "http_status 503 (net 2)" "http_status 503 (net 3)" by simp_all
  from retry_step_503 [of 0 net None "[]"] h(1) obtain e0 where
    0: "retry_loop net 0 None [] = retry_loop net 1 (Some e0) [1000]" by auto
  from retry_step_503 [of 1 net "Some e0" "[1000]"] h(2) obtain e1 where
    1: "retry_loop net 1 (Some e0) [1000] = retry_loop net 2 (Some e1) [1000, 2000]"
    by (auto simp: numeral_2_eq_2)
  from retry_step_503 [of 2 net "Some e1" "[1000, 2000]"] h(3) obtain e2 where
    2: "retry_loop net 2 (Some e1) [1000, 2000] = retry_loop net 3 (Some e2) [1000, 2000, 4000]"
    by (auto simp: numeral_3_eq_3)
  from retry_step_503 [of 3 net "Some e2" "[1000, 2000, 4000]"] h(4) obtain e3 where
    3: "retry_loop net 3 (Some e2) [1000, 2000, 4000]
        = retry_loop net 4 (Some e3) [1000, 2000, 4000, 8000]"
    by auto
  have "try_body (net 4) = Returned payload" using assms(2) by (simp add: try_body_def)
  then have 4: "retry_loop net 4 (Some e3) [1000, 2000, 4000, 8000]
      = \<lparr>outcome = Inr payload, attempts = 5, delays = [1000, 2000, 4000, 8000]\<rparr>"
    by (subst retry_loop.simps) (simp add: Let_def MAX_RETRIES_def)
  show ?thesis unfolding graphqlRequest_def 0 1 2 3 4 ..
qed

lemma graphqlRequest_first_fails:
  assumes "try_body (net 0) = Caught e" and "\<And>message. e = JsError message \<Longrightarrow> \<not> isRetryable message"
  shows "graphqlRequest net = \<lparr>outcome = Inl e, attempts = 1, delays = []\<rparr>"
  unfolding graphqlRequest_def using assms
  by (subst retry_loop.simps) (auto simp: Let_def MAX_RETRIES_def split: thrown.splits)

lemma graphqlRequest_404:
  assumes "http_status 404 (net 0)"
  shows "attempts (graphqlRequest net) = 1 \<and> delays (graphqlRequest net) = []
     \<and> (\<exists>e. outcome (graphqlRequest net) = Inl e)"
proof -
  from assms consider b where "net 0 = Response 404 b"
    | "net 0 = Throws (JsError (js ''Request failed, status '' @ decimal 404))"
    unfolding http_status_def by blast
  then show ?thesis
  proof cases
    case 1
    then have "try_body (net 0) = Caught (JsError (js ''GraphQL request failed: '' @ decimal 404))"
      by (simp add: try_body_def RETRYABLE_STATUS_CODES_def)
    from graphqlRequest_first_fails [of net, OF this] failed_status_not_retryable
    show ?thesis by simp
  next
    case 2
    then have "try_body (net 0) = Caught (JsError (js ''Request failed, status '' @ decimal 404))"
      by (simp add: try_body_def)
    from graphqlRequest_first_fails [of net, OF this] status_404_not_retryable
    show ?thesis by simp
  qed
qed

text \<open>
  Claim C2. graphqlRequest sends at most 5 requests. When the first four answers are
  HTTP 503 and the fifth is a clean 200, it returns the payload after exactly 5 requests
  and the delays 1s, 2s, 4s, 8s. When the first answer is HTTP 404 it fails after exactly
  one request. Whenever it fails, the error it throws is the error observed on its last
  request (so the generic "Request failed after retries" is never what it throws).
\<close>

theorem graphqlRequest_retry:
  "attempts (graphqlRequest net) \<le> 5
   \<and> ((\<forall>i<4. http_status 503 (net i)) \<and> net 4 = Response 200 (Json [] payload) \<longrightarrow>
        graphqlRequest net
          = \<lparr>outcome = Inr payload, attempts = 5, delays = [1000, 2000, 4000, 8000]\<rparr>)
   \<and> (http_status 404 (net 0) \<longrightarrow>
        attempts (graphqlRequest net) = 1 \<and> delays (graphqlRequest net) = []
        \<and> (\<exists>e. outcome (graphqlRequest net) = Inl e))
   \<and> (\<forall>e. outcome (graphqlRequest net) = Inl e \<longrightarrow>
        observed_error (net (attempts (graphqlRequest net) - 1)) = Some e)"
proof -
  have 1: "attempts (graphqlRequest net) \<le> 5"
    using retry_loop_attempts [of 0 net None "[]"]
    by (simp add: graphqlRequest_def MAX_RETRIES_def)
  have 4: "observed_error (net (attempts (graphqlRequest net) - 1)) = Some e"
    if "outcome (graphqlRequest net) = Inl e" for e
    using that retry_loop_last_error [of 0 None net "[]" e]
    by (simp add: graphqlRequest_def)
  from 1 4 graphqlRequest_503_then_200 [of net payload] graphqlRequest_404 [of net]
  show ?thesis by blast
qed

definition net_503x4 :: "nat \<Rightarrow> nat outcome" where
  "net_503x4 i = (if i < 4 then Response 503 (Unreadable []) else Response 200 (Json [] 7))"

definition net_404 :: "nat \<Rightarrow> nat outcome" where
  "net_404 i = Throws (JsError (js ''Request failed, status 404''))"

theorem graphqlRequest_retry_witness:
  "graphqlRequest net_503x4
     = \<lparr>outcome = Inr 7, attempts = 5, delays = [1000, 2000, 4000, 8000]\<rparr>
   \<and> graphqlRequest net_404
     = \<lparr>outcome = Inl (JsError (js ''Request failed, status 404'')), attempts = 1, delays = []\<rparr>"
proof -
  have a: "\<forall>i<4. http_status 503 (net_503x4 i)"
    by (simp add: http_status_def net_503x4_def)
  have b: "net_503x4 4 = Response 200 (Json [] 7)"
    by (simp add: net_503x4_def)
  have d: "decimal 404 = js ''404''" by (simp add: decimal.simps js_def)
  have c: "http_status 404 (net_404 0)"
    by (simp add: http_status_def net_404_def d js_def)
  from a b graphqlRequest_retry [of net_503x4 7]
  have 1: "graphqlRequest net_503x4
     = \<lparr>outcome = Inr 7, attempts = 5, delays = [1000, 2000, 4000, 8000]\<rparr>" by blast
  from c graphqlRequest_retry [of net_404 7]
  obtain e where 2: "attempts (graphqlRequest net_404) = 1" "delays (graphqlRequest net_404) = []"
    "outcome (graphqlRequest net_404) = Inl e"
    "observed_error (net_404 (attempts (graphqlRequest net_404) - 1)) = Some e" by blast
  from 2(1,4) have "e = JsError (js ''Request failed, status 404'')"
    by (simp add: observed_error_def try_body_def net_404_def)
  with 2(1-3) have "graphqlRequest net_404
     = \<lparr>outcome = Inl (JsError (js ''Request failed, status 404'')), attempts = 1, delays = []\<rparr>"
    by (cases "graphqlRequest net_404") simp
  with 1 show ?thesis by simp
qed


text \<open>
  Claim C7 as stated fails: the error for a populated \<open>errors\<close> array is thrown inside
  the \<open>try\<close> block, so the \<open>catch\<close> block classifies it by its message like any other
  error. An answer 200 whose error message mentions a timeout is retried after 1s; here the
  second answer is clean and the call succeeds.
\<close>

definition net_errors_timeout :: "nat \<Rightarrow> nat outcome" where
  "net_errors_timeout i =
     (if i = 0 then Response 200 (Json [js ''This may be the result of a timeout''] 0)
      else Response 200 (Json [] 7))"

theorem graphqlRequest_errors_retried:
  "net_errors_timeout 0 = Response 200 (Json [js ''This may be the result of a timeout''] 0)
   \<and> graphqlRequest net_errors_timeout = \<lparr>outcome = Inr 7, attempts = 2, delays = [1000]\<rparr>"
proof -
  have r: "isRetryable (js ''GraphQL errors: '' @ join (js '', '') [js ''This may be the result of a timeout''])"
    by (simp add: isRetryable_def js_def)
  have 0: "try_body (net_errors_timeout 0)
      = Caught (JsError (js ''GraphQL errors: '' @ join (js '', '') [js ''This may be the result of a timeout'']))"
    by (simp add: try_body_def net_errors_timeout_def)
  have 1: "try_body (net_errors_timeout 1) = Returned 7"
    by (simp add: try_body_def net_errors_timeout_def)
  have "retry_loop net_errors_timeout 0 None []
      = retry_loop net_errors_timeout 1
          (Some (JsError (js ''GraphQL errors: '' @ join (js '', '') [js ''This may be the result of a timeout''])))
          [1000]"
    using 0 r by (subst retry_loop.simps) (simp add: Let_def MAX_RETRIES_def INITIAL_DELAY_MS_def)
  also have "\<dots> = \<lparr>outcome = Inr 7, attempts = 2, delays = [1000]\<rparr>"
    using 1 by (subst retry_loop.simps) (simp add: Let_def MAX_RETRIES_def)
  finally show ?thesis
    by (simp add: graphqlRequest_def net_errors_timeout_def)
qed

text \<open>
  Claim C7, amended. A response with a status other than 200, 429, 502, 503 and 504 makes
  graphqlRequest fail on the first request, with no delay. So do a response 200 whose body
  cannot be read, a response 200 with a non-empty \<open>errors\<close> array, and an error thrown by
  the request itself, provided the message of the error holds none of \<open>status 502\<close>,
  \<open>status 503\<close>, \<open>status 504\<close>, \<open>status 429\<close>, \<open>timeout\<close>, \<open>network\<close>.
\<close>

theorem graphqlRequest_fails_immediately:
  "(\<forall>st b. net 0 = Response st b \<and> st \<noteq> 200 \<and> st \<notin> set RETRYABLE_STATUS_CODES \<longrightarrow>
      graphqlRequest net
        = \<lparr>outcome = Inl (JsError (js ''GraphQL request failed: '' @ decimal st)),
           attempts = 1, delays = []\<rparr>)
   \<and> (\<forall>message. net 0 = Response 200 (Unreadable message) \<and> \<not> isRetryable message \<longrightarrow>
      graphqlRequest net = \<lparr>outcome = Inl (JsError message), attempts = 1, delays = []\<rparr>)
   \<and> (\<forall>errors payload. net 0 = Response 200 (Json errors payload) \<and> errors \<noteq> []
        \<and> \<not> isRetryable (js ''GraphQL errors: '' @ join (js '', '') errors) \<longrightarrow>
      graphqlRequest net
        = \<lparr>outcome = Inl (JsError (js ''GraphQL errors: '' @ join (js '', '') errors)),
           attempts = 1, delays = []\<rparr>)
   \<and> (\<forall>message. net 0 = Throws (JsError message) \<and> \<not> isRetryable message \<longrightarrow>
      graphqlRequest net = \<lparr>outcome = Inl (JsError message), attempts = 1, delays = []\<rparr>)
   \<and> (net 0 = Throws NonError \<longrightarrow>
      graphqlRequest net = \<lparr>outcome = Inl NonError, attempts = 1, delays = []\<rparr>)"
proof (intro conjI allI impI)
  fix st b
  assume "net 0 = Response st b \<and> st \<noteq> 200 \<and> st \<notin> set RETRYABLE_STATUS_CODES"
  then have "try_body (net 0) = Caught (JsError (js ''GraphQL request failed: '' @ decimal st))"
    by (simp add: try_body_def)
  from graphqlRequest_first_fails [of net, OF this] failed_status_not_retryable
  show "graphqlRequest net
        = \<lparr>outcome = Inl (JsError (js ''GraphQL request failed: '' @ decimal st)),
           attempts = 1, delays = []\<rparr>" by simp
next
  fix message
  assume a: "net 0 = Response 200 (Unreadable message) \<and> \<not> isRetryable message"
  then have "try_body (net 0) = Caught (JsError message)"
    by (simp add: try_body_def)
  from graphqlRequest_first_fails [of net, OF this] a
  show "graphqlRequest net = \<lparr>outcome = Inl (JsError message), attempts = 1, delays = []\<rparr>"
    by simp
next
  fix errors payload
  assume a: "net 0 = Response 200 (Json errors payload) \<and> errors \<noteq> []
        \<and> \<not> isRetryable (js ''GraphQL errors: '' @ join (js '', '') errors)"
  then have "try_body (net 0) = Caught (JsError (js ''GraphQL errors: '' @ join (js '', '') errors))"
    by (simp add: try_body_def)
  from graphqlRequest_first_fails [of net, OF this] a
  show "graphqlRequest net
        = \<lparr>outcome = Inl (JsError (js ''GraphQL errors: '' @ join (js '', '') errors)),
           attempts = 1, delays = []\<rparr>" by simp
next
  fix message
  assume a: "net 0 = Throws (JsError message) \<and> \<not> isRetryable message"
  then have "try_body (net 0) = Caught (JsError message)"
    by (simp add: try_body_def)
  from graphqlRequest_first_fails [of net, OF this] a
  show "graphqlRequest net = \<lparr>outcome = Inl (JsError message), attempts = 1, delays = []\<rparr>"
    by simp
next
  assume "net 0 = Throws NonError"
  then have "try_body (net 0) = Caught NonError"
    by (simp add: try_body_def)
  from graphqlRequest_first_fails [of net, OF this]
  show "graphqlRequest net = \<lparr>outcome = Inl NonError, attempts = 1, delays = []\<rparr>"
    by simp
qed

definition net_not_found :: "nat \<Rightarrow> nat outcome" where
  "net_not_found i = Response 404 (Unreadable [])"

definition net_errors_field :: "nat \<Rightarrow> nat outcome" where
  "net_errors_field i = Response 200 (Json [js ''Field x is missing'', js ''Bad query''] 0)"

theorem graphqlRequest_fails_immediately_witness:
  "graphqlRequest net_not_found
     = \<lparr>outcome = Inl (JsError (js ''GraphQL request failed: 404'')), attempts = 1, delays = []\<rparr>
   \<and> graphqlRequest net_errors_field
     = \<lparr>outcome = Inl (JsError (js ''GraphQL errors: Field x is missing, Bad query'')),
        attempts = 1, delays = []\<rparr>"
proof -
  have d: "decimal 404 = js ''404''" by (simp add: decimal.simps js_def)
  have a: "net_not_found 0 = Response 404 (Unreadable []) \<and> (404::nat) \<noteq> 200
      \<and> 404 \<notin> set RETRYABLE_STATUS_CODES"
    by (simp add: net_not_found_def RETRYABLE_STATUS_CODES_def)
  have j: "js ''GraphQL errors: '' @ join (js '', '') [js ''Field x is missing'', js ''Bad query'']
      = js ''GraphQL errors: Field x is missing, Bad query''"
    by (simp add: js_def)
  have b: "net_errors_field 0 = Response 200 (Json [js ''Field x is missing'', js ''Bad query''] 0)
      \<and> [js ''Field x is missing'', js ''Bad query''] \<noteq> []
      \<and> \<not> isRetryable (js ''GraphQL errors: '' @ join (js '', '') [js ''Field x is missing'', js ''Bad query''])"
    unfolding j by (simp add: net_errors_field_def isRetryable_def js_def)
  from a graphqlRequest_fails_immediately [of net_not_found]
  have 1: "graphqlRequest net_not_found
     = \<lparr>outcome = Inl (JsError (js ''GraphQL request failed: '' @ decimal 404)),
        attempts = 1, delays = []\<rparr>" by blast
  from b graphqlRequest_fails_immediately [of net_errors_field]
  have 2: "graphqlRequest net_errors_field
     = \<lparr>outcome = Inl (JsError (js ''GraphQL errors: '' @ join (js '', '') [js ''Field x is missing'', js ''Bad query''])),
        attempts = 1, delays = []\<rparr>" by blast
  from 1 2 show ?thesis unfolding j d by (simp add: js_def)
qed

section \<open>Project metadata resolver: the current iteration\<close>

record Iteration =
  iter_id :: jsstring
  iter_title :: jsstring
  startDate :: jsstring
  duration :: int










section \<open>Local files: listing and archival\<close>

datatype AuthMethod = pat | oauth

record PluginSettings =
  authMethod :: AuthMethod
  clientId :: jsstring
  githubBaseUrl :: jsstring
  projectUrl :: jsstring
  syncFolder :: jsstring
  indexFileName :: jsstring
  issuesFolder :: jsstring
  archiveFolder :: jsstring
  onlyMyIssues :: bool
  imageHostingRepo :: jsstring
  imageHostingBranch :: jsstring

text \<open>
  The host store, as far as the archival reads and changes it. A file handle carries its
  name, its extension and what \<open>vault.read\<close> returns for it. \<open>children\<close> is what
  \<open>folder.children\<close> lists for the issues folder, \<open>folders\<close> the paths at which
  \<open>getAbstractFileByPath\<close> finds a folder, and \<open>calls\<close> the changes asked of the store, in
  order. The store's \<open>normalizePath\<close> is a parameter of the functions below; its \<open>rename\<close>
  and \<open>createFolder\<close> are taken to succeed.
\<close>

record TFile =
  name :: jsstring
  extension :: jsstring
  contents :: jsstring

datatype entry = File TFile | Folder jsstring

datatype store_call = CreateFolder jsstring | Rename TFile jsstring

record vault =
  folders :: "jsstring set"
  children :: "entry list"
  calls :: "store_call list"

definition ensureFolder :: "(jsstring \<Rightarrow> jsstring) \<Rightarrow> vault \<Rightarrow> jsstring \<Rightarrow> vault" where
  "ensureFolder normalizePath v path =
     (let normalizedPath = normalizePath path
      in if normalizedPath \<in> folders v then v
         else v\<lparr>folders := insert normalizedPath (folders v),
                calls := calls v @ [CreateFolder normalizedPath]\<rparr>)"

definition getIssuesFolderPath :: "(jsstring \<Rightarrow> jsstring) \<Rightarrow> PluginSettings \<Rightarrow> jsstring" where
  "getIssuesFolderPath normalizePath settings =
     normalizePath (syncFolder settings @ js ''/'' @ issuesFolder settings)"

text \<open>The loop of getIssueFiles over the children of the issues folder.\<close>

fun issue_files :: "jsstring \<Rightarrow> entry list \<Rightarrow> js_error + TFile list" where
  "issue_files indexName [] = Inr []"
| "issue_files indexName (Folder _ # es) = issue_files indexName es"
| "issue_files indexName (File child # es) =
     (if extension child = js ''md'' then
        (if name child = indexName then issue_files indexName es
         else (case parseFrontmatter (contents child) of
                 Inl e \<Rightarrow> Inl e
               | Inr None \<Rightarrow> issue_files indexName es
               | Inr (Some _) \<Rightarrow>
                   (case issue_files indexName es of
                      Inl e \<Rightarrow> Inl e | Inr fs \<Rightarrow> Inr (child # fs))))
      else issue_files indexName es)"

definition getIssueFiles ::
  "(jsstring \<Rightarrow> jsstring) \<Rightarrow> PluginSettings \<Rightarrow> vault \<Rightarrow> js_error + TFile list" where
  "getIssueFiles normalizePath settings v =
     (if getIssuesFolderPath normalizePath settings \<notin> folders v then Inr []
      else issue_files (indexFileName settings @ js ''.md'') (children v))"

text \<open>The loop of archiveOldIssues over the files getIssueFiles returned.\<close>

fun archive_loop ::
  "(jsstring \<Rightarrow> jsstring) \<Rightarrow> jsstring \<Rightarrow> nat set \<Rightarrow> TFile list \<Rightarrow> nat \<times> vault
     \<Rightarrow> js_error + nat \<times> vault" where
  "archive_loop normalizePath archivePath currentIssueNumbers [] (archivedCount, v) =
     Inr (archivedCount, v)"
| "archive_loop normalizePath archivePath currentIssueNumbers (file # files) (archivedCount, v) =
     (case parseFrontmatter (contents file) of
        Inl e \<Rightarrow> Inl e
      | Inr None \<Rightarrow>
          archive_loop normalizePath archivePath currentIssueNumbers files (archivedCount, v)
      | Inr (Some frontmatter) \<Rightarrow>
          if issue_number frontmatter \<notin> currentIssueNumbers then
            (let v1 = ensureFolder normalizePath v archivePath;
                 newPath = normalizePath (archivePath @ js ''/'' @ name file);
                 v2 = v1\<lparr>calls := calls v1 @ [Rename file newPath]\<rparr>
             in archive_loop normalizePath archivePath currentIssueNumbers files
                  (archivedCount + 1, v2))
          else archive_loop normalizePath archivePath currentIssueNumbers files (archivedCount, v))"

definition archiveOldIssues ::
  "(jsstring \<Rightarrow> jsstring) \<Rightarrow> PluginSettings \<Rightarrow> nat set \<Rightarrow> vault \<Rightarrow> js_error + nat \<times> vault" where
  "archiveOldIssues normalizePath settings currentIssueNumbers v =
     (case getIssueFiles normalizePath settings v of
        Inl e \<Rightarrow> Inl e
      | Inr issueFiles \<Rightarrow>
          (let issuesFolderPath = getIssuesFolderPath normalizePath settings;
               archivePath = normalizePath (issuesFolderPath @ js ''/'' @ archiveFolder settings)
           in archive_loop normalizePath archivePath currentIssueNumbers issueFiles (0, v)))"

text \<open>The files of a listing, and the files the archival is after: markdown files other than
  the index file whose content has a valid header with a number outside the synced set.\<close>

fun listed_files :: "entry list \<Rightarrow> TFile list" where
  "listed_files [] = []"
| "listed_files (Folder _ # es) = listed_files es"
| "listed_files (File f # es) = f # listed_files es"

definition managed :: "TFile \<Rightarrow> bool" where
  "managed f \<longleftrightarrow> (\<exists>fm. parseFrontmatter (contents f) = Inr (Some fm))"

definition stale :: "nat set \<Rightarrow> TFile \<Rightarrow> bool" where
  "stale S f \<longleftrightarrow> (\<exists>fm. parseFrontmatter (contents f) = Inr (Some fm) \<and> issue_number fm \<notin> S)"

definition archivable :: "PluginSettings \<Rightarrow> nat set \<Rightarrow> TFile \<Rightarrow> bool" where
  "archivable settings S f \<longleftrightarrow>
     extension f = js ''md'' \<and> name f \<noteq> indexFileName settings @ js ''.md'' \<and> stale S f"

definition renamed :: "store_call list \<Rightarrow> TFile list" where
  "renamed cs = concat (map (\<lambda>c. case c of Rename f _ \<Rightarrow> [f] | CreateFolder _ \<Rightarrow> []) cs)"

lemma issue_files_eq:
  "issue_files indexName es
     = Inr (filter (\<lambda>f. extension f = js ''md'' \<and> name f \<noteq> indexName \<and> managed f) (listed_files es))"
proof (induction indexName es rule: issue_files.induct)
  case (3 indexName child es)
  obtain r where r: "parseFrontmatter (contents child) = Inr r"
    using parseFrontmatter_Inr by blast
  with 3 show ?case
    by (cases r) (auto simp: managed_def)
qed simp_all

lemma renamed_append: "renamed (a @ b) = renamed a @ renamed b"
  by (simp add: renamed_def)

lemma archive_loop_eq:
  "\<exists>v'. archive_loop np ap S files (n, v) = Inr (n + length (filter (stale S) files), v')
     \<and> children v' = children v
     \<and> (\<exists>new. calls v' = calls v @ new
          \<and> renamed new = filter (stale S) files
          \<and> (\<forall>c \<in> set new. c = CreateFolder (np ap)
                \<or> (\<exists>f. c = Rename f (np (ap @ js ''/'' @ name f)))))"
proof (induction files arbitrary: n v)
  case Nil
  then show ?case by (simp add: renamed_def)
next
  case (Cons f0 files)
  obtain r where r: "parseFrontmatter (contents f0) = Inr r"
    using parseFrontmatter_Inr by blast
  show ?case
  proof (cases "stale S f0")
    case False
    with r have eq: "archive_loop np ap S (f0 # files) (n, v) = archive_loop np ap S files (n, v)"
      by (cases r) (auto simp: stale_def)
    from Cons.IH [of n v] False show ?thesis unfolding eq by simp
  next
    case True
    then obtain fm where fm: "r = Some fm" "issue_number fm \<notin> S"
      using r by (auto simp: stale_def)
    let ?v1 = "ensureFolder np v ap"
    let ?v2 = "?v1\<lparr>calls := calls ?v1 @ [Rename f0 (np (ap @ js ''/'' @ name f0))]\<rparr>"
    have eq: "archive_loop np ap S (f0 # files) (n, v) = archive_loop np ap S files (n + 1, ?v2)"
      using r fm by (simp add: Let_def)
    obtain pre where pre: "calls ?v1 = calls v @ pre" "renamed pre = []"
      "\<forall>c \<in> set pre. c = CreateFolder (np ap)" "children ?v1 = children v"
      by (cases "np ap \<in> folders v") (auto simp: ensureFolder_def Let_def renamed_def)
    from Cons.IH [of "n + 1" ?v2] obtain v' new where
      v': "archive_loop np ap S files (n + 1, ?v2) = Inr (n + 1 + length (filter (stale S) files), v')"
      "children v' = children ?v2" "calls v' = calls ?v2 @ new"
      "renamed new = filter (stale S) files"
      "\<forall>c \<in> set new. c = CreateFolder (np ap) \<or> (\<exists>f. c = Rename f (np (ap @ js ''/'' @ name f)))"
      by blast
    let ?new = "pre @ [Rename f0 (np (ap @ js ''/'' @ name f0))] @ new"
    have "calls v' = calls v @ ?new" using v'(3) pre(1) by simp
    moreover have "renamed ?new = filter (stale S) (f0 # files)"
      using True pre(2) v'(4) by (simp add: renamed_append) (simp add: renamed_def)
    moreover have "\<forall>c \<in> set ?new. c = CreateFolder (np ap)
        \<or> (\<exists>f. c = Rename f (np (ap @ js ''/'' @ name f)))"
      using pre(3) v'(5) by auto
    moreover have "children v' = children v" using v'(2) pre(4) by simp
    moreover have "archive_loop np ap S (f0 # files) (n, v)
        = Inr (n + length (filter (stale S) (f0 # files)), v')"
      using eq v'(1) True by simp
    ultimately show ?thesis by blast
  qed
qed


lemma filter_stale_managed:
  "filter (stale S) (filter (\<lambda>f. extension f = js ''md''
       \<and> name f \<noteq> indexFileName settings @ js ''.md'' \<and> managed f) fs)
     = filter (archivable settings S) fs"
  by (induction fs) (auto simp: stale_def managed_def archivable_def)

text \<open>A sample of the local store: the default settings, a path function for paths that
  are already normal, and the note a pull writes for issue \<open>n\<close> of the repository \<open>o/r\<close>.\<close>

definition DEFAULT_SETTINGS :: PluginSettings where
  "DEFAULT_SETTINGS =
     \<lparr>authMethod = pat, clientId = [], githubBaseUrl = [], projectUrl = [],
      syncFolder = js ''GitHub Issues'', indexFileName = js ''Board'',
      issuesFolder = js ''_issues'', archiveFolder = js ''_archive'', onlyMyIssues = False,
      imageHostingRepo = [], imageHostingBranch = js ''main''\<rparr>"

definition plain_path :: "jsstring \<Rightarrow> jsstring" where
  "plain_path p = p"

definition sample_note :: "nat \<Rightarrow> jsstring" where
  "sample_note n =
     js ''---'' @ [10] @ (js ''url: '' @ [34] @ (js ''https://github.com/o/r/issues/'' @ decimal n) @ [34])
       @ [10] @ js ''---'' @ [10, 10] @ js ''Body''"

lemma sample_note_parse:
  "parseFrontmatter (sample_note n)
     = Inr (Some \<lparr>fm_url = js ''https://github.com/o/r/issues/'' @ decimal n, repo = js ''o/r'',
                  issue_number = n\<rparr>)"
proof -
  have d: "34 \<notin> set (decimal n)" "10 \<notin> set (decimal n)"
    using decimal_digits [of n] by (auto simp: is_digit_def)
  have "parseFrontmatter (sample_note n)
     = Inr (Some \<lparr>fm_url = js ''https://github.com/o/r/issues/'' @ decimal n,
                  repo = js ''o'' @ js ''/'' @ js ''r'', issue_number = n\<rparr>)"
    unfolding sample_note_def
    by (rule parseFrontmatter_header [where scheme = "js ''https:''" and host = "js ''github.com''"])
      (simp_all add: js_def d)
  then show ?thesis by (simp add: js_def)
qed

lemma stale_sample_note [simp]:
  "stale S \<lparr>name = nm, extension = ex, contents = sample_note n\<rparr> \<longleftrightarrow> n \<notin> S"
  by (simp add: stale_def sample_note_parse)

lemma not_stale_plain [simp]:
  "\<not> stale S \<lparr>name = nm, extension = ex, contents = js ''# Notes''\<rparr>"
proof -
  have "\<not> has_header_block (js ''# Notes'')"
    by (simp add: has_header_block_def js_def)
  then have "parseFrontmatter (js ''# Notes'') \<noteq> Inr (Some fm)" for fm
    using parseFrontmatter_Some_shape [of "js ''# Notes''" fm] by blast
  then show ?thesis by (simp add: stale_def)
qed

text \<open>
  Claim C4 as stated fails: a file whose content has a valid header is not considered at
  all unless its extension is \<open>md\<close> and its name is not the index file's. Here the issues
  folder holds one text file with the header of issue 2 and the synced set is \<open>{1, 3}\<close>:
  nothing is moved.
\<close>

definition text_file_vault :: vault where
  "text_file_vault =
     \<lparr>folders = {js ''GitHub Issues/_issues''},
      children = [File \<lparr>name = js ''Old (2).txt'', extension = js ''txt'', contents = sample_note 2\<rparr>],
      calls = []\<rparr>"

theorem archiveOldIssues_skips_text_file:
  "stale {1, 3} \<lparr>name = js ''Old (2).txt'', extension = js ''txt'', contents = sample_note 2\<rparr>
   \<and> archiveOldIssues plain_path DEFAULT_SETTINGS {1, 3} text_file_vault = Inr (0, text_file_vault)"
  by (simp add: archiveOldIssues_def getIssueFiles_def getIssuesFolderPath_def plain_path_def
      DEFAULT_SETTINGS_def text_file_vault_def js_def)

text \<open>
  Claim C4, amended. archiveOldIssues asks the store to rename, into the archive folder and
  in the order of the listing, exactly the files of the issues folder that have the
  extension \<open>md\<close>, are not the index file, and whose content has a valid header with an
  issue number outside the synced set. It asks for nothing else but the creation of the
  archive folder: a file without a valid header and a file whose number is in the set are
  never renamed. It returns the number of files renamed.
\<close>

theorem archiveOldIssues_exact:
  "\<exists>v' new. archiveOldIssues np settings S v = Inr (length (renamed new), v')
     \<and> children v' = children v \<and> calls v' = calls v @ new
     \<and> renamed new =
         (if getIssuesFolderPath np settings \<in> folders v
          then filter (archivable settings S) (listed_files (children v)) else [])
     \<and> (\<forall>c \<in> set new.
           c = CreateFolder (np (np (getIssuesFolderPath np settings @ js ''/'' @ archiveFolder settings)))
           \<or> (\<exists>f. c = Rename f (np (np (getIssuesFolderPath np settings @ js ''/'' @ archiveFolder settings)
                                    @ js ''/'' @ name f))))
     \<and> (\<forall>f \<in> set (renamed new). managed f \<and> stale S f)"
proof -
  let ?ap = "np (getIssuesFolderPath np settings @ js ''/'' @ archiveFolder settings)"
  let ?ix = "indexFileName settings @ js ''.md''"
  let ?fs = "if getIssuesFolderPath np settings \<in> folders v
     then filter (\<lambda>f. extension f = js ''md'' \<and> name f \<noteq> ?ix \<and> managed f) (listed_files (children v))
     else []"
  have g: "getIssueFiles np settings v = Inr ?fs"
    by (simp add: getIssueFiles_def issue_files_eq)
  have a: "archiveOldIssues np settings S v = archive_loop np ?ap S ?fs (0, v)"
    by (simp only: archiveOldIssues_def g sum.case Let_def)
  from archive_loop_eq [of np ?ap S ?fs 0 v] obtain v' new where
    l: "archive_loop np ?ap S ?fs (0, v) = Inr (0 + length (filter (stale S) ?fs), v')"
    "children v' = children v" "calls v' = calls v @ new" "renamed new = filter (stale S) ?fs"
    "\<forall>c \<in> set new. c = CreateFolder (np ?ap) \<or> (\<exists>f. c = Rename f (np (?ap @ js ''/'' @ name f)))"
    by blast
  have m: "filter (stale S) ?fs =
      (if getIssuesFolderPath np settings \<in> folders v
       then filter (archivable settings S) (listed_files (children v)) else [])"
    by (simp only: filter_stale_managed filter.simps if_distrib [of "filter (stale S)"] cong: if_cong)
  have "\<forall>f \<in> set (renamed new). managed f \<and> stale S f"
    unfolding l(4) by (auto simp: stale_def managed_def)
  with a l m show ?thesis by (intro exI [of _ v'] exI [of _ new]) simp
qed

definition sample_vault :: vault where
  "sample_vault =
     \<lparr>folders = {js ''GitHub Issues/_issues''},
      children =
        [File \<lparr>name = js ''A (1).md'', extension = js ''md'', contents = sample_note 1\<rparr>,
         File \<lparr>name = js ''B (2).md'', extension = js ''md'', contents = sample_note 2\<rparr>,
         Folder (js ''_archive''),
         File \<lparr>name = js ''Plan (2).md'', extension = js ''md'', contents = js ''# Notes''\<rparr>,
         File \<lparr>name = js ''C (3).md'', extension = js ''md'', contents = sample_note 3\<rparr>],
      calls = []\<rparr>"

theorem archiveOldIssues_exact_witness:
  "\<exists>v'. archiveOldIssues plain_path DEFAULT_SETTINGS {1, 3} sample_vault = Inr (1, v')
     \<and> renamed (calls v')
        = [\<lparr>name = js ''B (2).md'', extension = js ''md'', contents = sample_note 2\<rparr>]"
proof -
  have p: "getIssuesFolderPath plain_path DEFAULT_SETTINGS \<in> folders sample_vault"
    by (simp add: getIssuesFolderPath_def plain_path_def DEFAULT_SETTINGS_def sample_vault_def js_def)
  have f: "filter (archivable DEFAULT_SETTINGS {1, 3}) (listed_files (children sample_vault))
      = [\<lparr>name = js ''B (2).md'', extension = js ''md'', contents = sample_note 2\<rparr>]"
    by (simp add: archivable_def sample_vault_def DEFAULT_SETTINGS_def) (simp add: js_def)
  from archiveOldIssues_exact [of plain_path DEFAULT_SETTINGS "{1, 3}" sample_vault]
  obtain v' new where
    "archiveOldIssues plain_path DEFAULT_SETTINGS {1, 3} sample_vault = Inr (length (renamed new), v')"
    "calls v' = calls sample_vault @ new"
    "renamed new = (if getIssuesFolderPath plain_path DEFAULT_SETTINGS \<in> folders sample_vault
          then filter (archivable DEFAULT_SETTINGS {1, 3}) (listed_files (children sample_vault)) else [])"
    by blast
  with p f have "archiveOldIssues plain_path DEFAULT_SETTINGS {1, 3} sample_vault = Inr (1, v')"
    "renamed (calls v') = [\<lparr>name = js ''B (2).md'', extension = js ''md'', contents = sample_note 2\<rparr>]"
    by (simp_all add: sample_vault_def)
  then show ?thesis by blast
qed

subsection \<open>Global matching and replacing\<close>

text \<open>
  What a regular expression with the global flag finds in a string, scanning from the left
  as \<open>String.prototype.replace\<close> and a loop over \<open>exec\<close> do: the text between matches, and
  each match with its captures. After an empty match the scan moves on by one character.
\<close>

datatype piece = Text jsstring | Match jsstring caps

lemma search_SomeD:
  assumes "search r pre rest = Some (p0, p1, rest1, cs)"
  shows "\<exists>a m. p0 = pre @ a \<and> p1 = p0 @ m \<and> rest = a @ m @ rest1"
proof -
  from search_Some [OF assms] obtain a b where ab: "p0 = pre @ a" "rest = a @ b"
    "(p1, rest1, cs) \<in> set (ms r (p0, b, []))" by blast
  from ms_inv [OF ab(3)] obtain m where "p1 = p0 @ m" "b = m @ rest1" by blast
  with ab show ?thesis by auto
qed

function scan :: "re \<Rightarrow> jsstring \<Rightarrow> jsstring \<Rightarrow> piece list" where
  "scan r pre rest =
     (case search r pre rest of
        None \<Rightarrow> [Text rest]
      | Some (p0, p1, rest1, cs) \<Rightarrow>
          Text (drop (length pre) p0) # Match (drop (length p0) p1) cs #
            (if drop (length p0) p1 = [] then
               (case rest1 of [] \<Rightarrow> [] | c # rest2 \<Rightarrow> Text [c] # scan r (p1 @ [c]) rest2)
             else scan r p1 rest1))"
  by pat_completeness auto
termination
proof (relation "measure (\<lambda>(r, pre, rest). length rest)")
  show "wf (measure (\<lambda>(r, pre, rest). length rest))" by simp
next
  fix r pre rest x2 p0 y p1 ya rest1 cs c rest2
  assume "search r pre rest = Some x2" "(p0, y) = x2" "(p1, ya) = y" "(rest1, cs) = ya"
    "rest1 = c # rest2"
  then have "search r pre rest = Some (p0, p1, c # rest2, cs)" by simp
  from search_SomeD [OF this] show "((r, p1 @ [c], rest2), r, pre, rest) \<in> measure (\<lambda>(r, pre, rest). length rest)"
    by auto
next
  fix r pre rest x2 p0 y p1 ya rest1 cs
  assume "search r pre rest = Some x2" "(p0, y) = x2" "(p1, ya) = y" "(rest1, cs) = ya"
    "drop (length p0) p1 \<noteq> []"
  then have s: "search r pre rest = Some (p0, p1, rest1, cs)" and ne: "drop (length p0) p1 \<noteq> []"
    by simp_all
  from search_SomeD [OF s] ne show "((r, p1, rest1), r, pre, rest) \<in> measure (\<lambda>(r, pre, rest). length rest)"
    by auto
qed

declare scan.simps [simp del]

text \<open>\<open>str.replace(r, f)\<close> for a global \<open>r\<close> and a replacement computed from the match
  and its captures, and the list of matches a loop over \<open>r.exec(str)\<close> collects.\<close>

definition replace_all :: "re \<Rightarrow> (jsstring \<Rightarrow> caps \<Rightarrow> jsstring) \<Rightarrow> jsstring \<Rightarrow> jsstring" where
  "replace_all r f s =
     concat (map (\<lambda>p. case p of Text t \<Rightarrow> t | Match m cs \<Rightarrow> f m cs) (scan r [] s))"

definition exec_all :: "re \<Rightarrow> jsstring \<Rightarrow> (jsstring \<times> caps) list" where
  "exec_all r s =
     concat (map (\<lambda>p. case p of Text t \<Rightarrow> [] | Match m cs \<Rightarrow> [(m, cs)]) (scan r [] s))"

text \<open>\<open>r.test(str)\<close> for a regular expression without the global flag, and
  \<open>str.trim()\<close>.\<close>

definition re_test :: "re \<Rightarrow> jsstring \<Rightarrow> bool" where
  "re_test r s \<longleftrightarrow> search r [] s \<noteq> None"

definition trim :: "jsstring \<Rightarrow> jsstring" where
  "trim s = dropWhile is_space (rev (dropWhile is_space (rev s)))"

section \<open>File names and titles\<close>

definition INVALID_FILENAME_CHARS :: re where
  "INVALID_FILENAME_CHARS =
     Cls (\<lambda>c. c \<in> {60, 62, 58, 34, 47, 92, 124, 63, 42} \<or> c \<le> 31)"

text \<open>A literal under the flag \<open>i\<close>: each ASCII capital letter of the pattern matches itself
  and its small letter (no other code unit canonicalizes to an ASCII capital).\<close>

fun Lit_i :: "jsstring \<Rightarrow> re" where
  "Lit_i [] = Lit []"
| "Lit_i (c # cs) = Seq (Cls (\<lambda>x. x = c \<or> x = c + 32)) (Lit_i cs)"

definition WINDOWS_RESERVED_NAMES :: re where
  "WINDOWS_RESERVED_NAMES =
     Seq Bol (Seq (Grp 1
       (Alt (Lit_i (js ''CON'')) (Alt (Lit_i (js ''PRN'')) (Alt (Lit_i (js ''AUX''))
         (Alt (Lit_i (js ''NUL''))
           (Alt (Seq (Lit_i (js ''COM'')) (Cls (\<lambda>c. 49 \<le> c \<and> c \<le> 57)))
                (Seq (Lit_i (js ''LPT'')) (Cls (\<lambda>c. 49 \<le> c \<and> c \<le> 57))))))))) Eol)"

definition dash_or_space :: "nat \<Rightarrow> bool" where
  "dash_or_space c \<longleftrightarrow> c = 45 \<or> is_space c"

definition trim_dashes_re :: re where
  "trim_dashes_re = Alt (Seq Bol (Plus (Cls dash_or_space))) (Seq (Plus (Cls dash_or_space)) Eol)"

definition sanitizeFilename :: "jsstring \<Rightarrow> jsstring" where
  "sanitizeFilename nm =
     (let s1 = replace_all INVALID_FILENAME_CHARS (\<lambda>_ _. js ''-'') nm;
          s2 = replace_all (Plus (Cls (\<lambda>c. c = 45))) (\<lambda>_ _. js ''-'') s1;
          s3 = replace_all trim_dashes_re (\<lambda>_ _. []) s2;
          s4 = (if re_test WINDOWS_RESERVED_NAMES s3 then s3 @ js ''_'' else s3);
          s5 = (if s4 = [] then js ''untitled'' else s4)
      in if length s5 > 200 then take 200 s5 else s5)"

definition generateIssueFilename :: "GitHubIssue \<Rightarrow> jsstring" where
  "generateIssueFilename issue =
     sanitizeFilename (title issue) @ js '' ('' @ decimal (number issue) @ js '')''"

text \<open>Evaluating a scan step by step.\<close>

lemma scan_None: "search r pre rest = None \<Longrightarrow> scan r pre rest = [Text rest]"
  by (subst scan.simps) simp

lemma scan_Some:
  "search r pre rest = Some (p0, p1, rest1, cs) \<Longrightarrow> drop (length p0) p1 \<noteq> [] \<Longrightarrow>
   scan r pre rest = Text (drop (length pre) p0) # Match (drop (length p0) p1) cs # scan r p1 rest1"
  by (subst scan.simps) simp


text \<open>The title pushCurrentIssue sends: the basename of the file without a leading
  \<open>(number)\<close>, trimmed.\<close>

definition replace_first :: "re \<Rightarrow> (jsstring \<Rightarrow> caps \<Rightarrow> jsstring) \<Rightarrow> jsstring \<Rightarrow> jsstring" where
  "replace_first r f s =
     (case search r [] s of
        None \<Rightarrow> s
      | Some (p0, p1, rest1, cs) \<Rightarrow> p0 @ f (drop (length p0) p1) cs @ rest1)"

definition number_prefix_re :: re where
  "number_prefix_re =
     Seq Bol (Seq (Lit (js ''('')) (Seq (Plus (Cls is_digit))
       (Seq (Lit (js '')'')) (Star True (Cls is_space)))))"

definition newTitle :: "jsstring \<Rightarrow> jsstring" where
  "newTitle basename = trim (replace_first number_prefix_re (\<lambda>_ _. []) basename)"

definition has_number_prefix :: "jsstring \<Rightarrow> bool" where
  "has_number_prefix s \<longleftrightarrow>
     (\<exists>ds r. s = js ''('' @ ds @ js '')'' @ r \<and> ds \<noteq> [] \<and> (\<forall>d \<in> set ds. is_digit d))"

subsection \<open>Facts about sanitizeFilename\<close>

definition strip :: "piece list \<Rightarrow> jsstring" where
  "strip ps = concat (map (\<lambda>p. case p of Text t \<Rightarrow> t | Match m cs \<Rightarrow> []) ps)"

lemma replace_all_strip: "replace_all r (\<lambda>_ _. []) s = strip (scan r [] s)"
  by (simp add: replace_all_def strip_def)

lemma hd_ms_Alt: "hd_ms r1 st = Some s1 \<Longrightarrow> hd_ms (Alt r1 r2) st = Some s1"
  by (auto simp: hd_ms_def split: list.splits)

lemma trim_dashes_match:
  assumes "(p1, r1, cs) \<in> set (ms trim_dashes_re (p0, b, c0))"
  shows "\<exists>m. m \<noteq> [] \<and> (\<forall>x \<in> set m. dash_or_space x) \<and> p1 = p0 @ m \<and> b = m @ r1"
proof -
  from assms consider
      (l) "(p1, r1, cs) \<in> set (ms (Seq Bol (Plus (Cls dash_or_space))) (p0, b, c0))"
    | (r) "(p1, r1, cs) \<in> set (ms (Seq (Plus (Cls dash_or_space)) Eol) (p0, b, c0))"
    unfolding trim_dashes_re_def by auto
  then show ?thesis
  proof cases
    case l
    then obtain s1 where 1: "s1 \<in> set (ms Bol (p0, b, c0))"
      and 2: "(p1, r1, cs) \<in> set (ms (Plus (Cls dash_or_space)) s1)"
      by (blast dest: ms_SeqE)
    from 1 have "s1 = (p0, b, c0)" by (cases s1) (auto split: if_splits)
    with 2 ms_Plus_ClsE [of p1 r1 cs dash_or_space p0 b c0] show ?thesis by blast
  next
    case r
    then obtain s1 where 1: "s1 \<in> set (ms (Plus (Cls dash_or_space)) (p0, b, c0))"
      and 2: "(p1, r1, cs) \<in> set (ms Eol s1)"
      by (blast dest: ms_SeqE)
    obtain q1 q2 q3 where s1: "s1 = (q1, q2, q3)" by (cases s1)
    from ms_EolE [OF 2 [unfolded s1]] have "q1 = p1" "q2 = r1" by simp_all
    with 1 s1 ms_Plus_ClsE [of p1 r1 q3 dash_or_space p0 b c0] show ?thesis by blast
  qed
qed

lemma trim_dashes_no_match: "\<not> dash_or_space c \<Longrightarrow> ms trim_dashes_re (p0, c # cs, []) = []"
proof (rule ccontr)
  assume c: "\<not> dash_or_space c" and "ms trim_dashes_re (p0, c # cs, []) \<noteq> []"
  then obtain p1 r1 cs' where "(p1, r1, cs') \<in> set (ms trim_dashes_re (p0, c # cs, []))"
    by (cases "ms trim_dashes_re (p0, c # cs, [])") auto
  from trim_dashes_match [OF this] obtain m where "m \<noteq> []" "\<forall>x \<in> set m. dash_or_space x"
    "c # cs = m @ r1" by blast
  with c show False by (cases m) auto
qed

lemma trim_dashes_end: "search trim_dashes_re pre [] = None"
proof (cases "ms trim_dashes_re (pre, [], [])")
  case Nil
  then show ?thesis by simp
next
  case (Cons st sts)
  obtain p1 r1 cs where "st = (p1, r1, cs)" by (cases st)
  with Cons have "(p1, r1, cs) \<in> set (ms trim_dashes_re (pre, [], []))" by simp
  from trim_dashes_match [OF this] show ?thesis by auto
qed

lemma scan_trim_dashes_end: "scan trim_dashes_re pre [] = [Text []]"
  by (rule scan_None) (rule trim_dashes_end)

lemma strip_scan_keeps_head:
  assumes "\<not> dash_or_space c"
  shows "\<exists>out. strip (scan trim_dashes_re pre (c # cs)) = c # out"
proof -
  have s: "search trim_dashes_re pre (c # cs) = search trim_dashes_re (pre @ [c]) cs"
    using trim_dashes_no_match [OF assms] by simp
  show ?thesis
  proof (cases "search trim_dashes_re (pre @ [c]) cs")
    case None
    with s show ?thesis by (subst scan.simps) (simp add: strip_def)
  next
    case (Some x)
    obtain p0 p1 rest1 cs' where x: "x = (p0, p1, rest1, cs')" by (cases x) auto
    from search_SomeD [OF Some [unfolded x]] obtain a where "p0 = (pre @ [c]) @ a" by blast
    then have "drop (length pre) p0 = c # a" by simp
    with s Some x show ?thesis by (subst scan.simps) (simp add: strip_def)
  qed
qed

lemma strip_trim_dashes_head:
  "strip (scan trim_dashes_re [] s) = [] \<or> \<not> dash_or_space (hd (strip (scan trim_dashes_re [] s)))"
proof (cases "takeWhile dash_or_space s = []")
  case True
  show ?thesis
  proof (cases s)
    case Nil
    then show ?thesis by (simp add: scan_trim_dashes_end strip_def)
  next
    case (Cons c cs)
    with True have nc: "\<not> dash_or_space c" by (auto split: if_splits)
    from strip_scan_keeps_head [OF nc, of "[]" cs] Cons nc show ?thesis by auto
  qed
next
  case False
  let ?run = "takeWhile dash_or_space s" and ?tl = "dropWhile dash_or_space s"
  have s: "s = ?run @ ?tl" by simp
  have tl: "?tl = [] \<or> \<not> dash_or_space (hd ?tl)"
    by (metis hd_dropWhile)
  have run: "\<forall>x \<in> set ?run. dash_or_space x" by (auto dest: set_takeWhileD)
  have "hd_ms (Plus (Cls dash_or_space)) ([], ?run @ ?tl, []) = Some ([] @ ?run, ?tl, [])"
    by (rule hd_ms_Plus_greedy [OF run False tl])
  with hd_ms_Bol [of "?run @ ?tl" "[]"]
  have "hd_ms (Seq Bol (Plus (Cls dash_or_space))) ([], ?run @ ?tl, []) = Some (?run, ?tl, [])"
    by (simp add: hd_ms_Seq)
  then have "hd_ms trim_dashes_re ([], ?run @ ?tl, []) = Some (?run, ?tl, [])"
    unfolding trim_dashes_re_def by (rule hd_ms_Alt)
  from search_hd [OF this] have "search trim_dashes_re [] s = Some ([], ?run, ?tl, [])"
    using s by simp
  then have sc: "strip (scan trim_dashes_re [] s) = strip (scan trim_dashes_re ?run ?tl)"
    using False by (subst scan.simps) (simp add: strip_def)
  show ?thesis
  proof (cases ?tl)
    case Nil
    have "scan trim_dashes_re ?run ?tl = [Text []]"
      unfolding Nil by (rule scan_trim_dashes_end)
    then have "strip (scan trim_dashes_re ?run ?tl) = []" by (simp add: strip_def)
    then show ?thesis unfolding sc by (rule disjI1)
  next
    case (Cons c cs)
    with tl have nc: "\<not> dash_or_space c" by simp
    from strip_scan_keeps_head [OF nc, of ?run cs] Cons nc show ?thesis unfolding sc by auto
  qed
qed

text \<open>A sanitized name is never empty and never starts with a dash or white space.\<close>

lemma sanitizeFilename_head:
  "sanitizeFilename nm \<noteq> [] \<and> \<not> dash_or_space (hd (sanitizeFilename nm))"
proof -
  define s3 where "s3 = replace_all trim_dashes_re (\<lambda>_ _. [])
     (replace_all (Plus (Cls (\<lambda>c. c = 45))) (\<lambda>_ _. js ''-'')
       (replace_all INVALID_FILENAME_CHARS (\<lambda>_ _. js ''-'') nm))"
  define s4 where "s4 = (if re_test WINDOWS_RESERVED_NAMES s3 then s3 @ js ''_'' else s3)"
  define s5 where "s5 = (if s4 = [] then js ''untitled'' else s4)"
  have r: "sanitizeFilename nm = (if length s5 > 200 then take 200 s5 else s5)"
    unfolding s5_def s4_def s3_def sanitizeFilename_def Let_def by (rule refl)
  have 3: "s3 = [] \<or> \<not> dash_or_space (hd s3)"
    unfolding s3_def replace_all_strip by (rule strip_trim_dashes_head)
  have 4: "s4 = [] \<or> \<not> dash_or_space (hd s4)"
    using 3 by (cases s3) (auto simp: s4_def js_def dash_or_space_def is_space_def)
  have 5: "s5 \<noteq> [] \<and> \<not> dash_or_space (hd s5)"
    using 4 by (auto simp: s5_def js_def dash_or_space_def is_space_def)
  then show ?thesis unfolding r by (cases s5) auto
qed


subsection \<open>Facts about the pushed title\<close>

lemma search_Bol_later: "pre \<noteq> [] \<Longrightarrow> search (Seq Bol r) pre rest = None"
  by (induction rest arbitrary: pre) simp_all

lemma search_Bol_start:
  assumes "ms (Seq Bol r) ([], rest, []) = []"
  shows "search (Seq Bol r) [] rest = None"
proof (cases rest)
  case Nil
  with assms show ?thesis by simp
next
  case (Cons c cs)
  have "search (Seq Bol r) ([] @ [c]) cs = None" by (rule search_Bol_later) simp
  with assms Cons show ?thesis by simp
qed

lemma number_prefix_match_shape:
  assumes "(p1, r1, cs) \<in> set (ms number_prefix_re ([], x, c0))"
  shows "\<exists>ds ws. x = js ''('' @ ds @ js '')'' @ ws @ r1 \<and> ds \<noteq> [] \<and> (\<forall>d \<in> set ds. is_digit d)"
proof -
  from assms obtain s1 where 1: "s1 \<in> set (ms Bol ([], x, c0))"
    and m1: "(p1, r1, cs) \<in> set (ms (Seq (Lit (js ''('')) (Seq (Plus (Cls is_digit))
       (Seq (Lit (js '')'')) (Star True (Cls is_space))))) s1)"
    unfolding number_prefix_re_def by (blast dest: ms_SeqE)
  from 1 have s1: "s1 = ([], x, c0)" by (cases s1) (auto split: if_splits)
  from m1 obtain s2 where 2: "s2 \<in> set (ms (Lit (js ''('')) s1)"
    and m2: "(p1, r1, cs) \<in> set (ms (Seq (Plus (Cls is_digit))
       (Seq (Lit (js '')'')) (Star True (Cls is_space)))) s2)"
    by (blast dest: ms_SeqE)
  obtain p2 r2 c2 where s2: "s2 = (p2, r2, c2)" by (cases s2)
  from ms_LitE [OF 2 [unfolded s1 s2]] have l2: "x = js ''('' @ r2" by simp
  from m2 obtain s3 where 3: "s3 \<in> set (ms (Plus (Cls is_digit)) s2)"
    and m3: "(p1, r1, cs) \<in> set (ms (Seq (Lit (js '')'')) (Star True (Cls is_space))) s3)"
    by (blast dest: ms_SeqE)
  obtain p3 r3 c3 where s3: "s3 = (p3, r3, c3)" by (cases s3)
  from ms_Plus_ClsE [OF 3 [unfolded s2 s3]] obtain ds where ds: "r2 = ds @ r3" "ds \<noteq> []"
    "\<forall>d \<in> set ds. is_digit d" by blast
  from m3 obtain s4 where 4: "s4 \<in> set (ms (Lit (js '')'')) s3)"
    and m4: "(p1, r1, cs) \<in> set (ms (Star True (Cls is_space)) s4)"
    by (blast dest: ms_SeqE)
  obtain p4 r4 c4 where s4: "s4 = (p4, r4, c4)" by (cases s4)
  from ms_LitE [OF 4 [unfolded s3 s4]] have l4: "r3 = js '')'' @ r4" by simp
  from ms_inv [OF m4 [unfolded s4]] obtain ws where ws: "r4 = ws @ r1" by blast
  from l2 ds l4 ws have "x = js ''('' @ ds @ js '')'' @ ws @ r1" by simp
  with ds(2,3) show ?thesis by blast
qed

lemma prefix_before:
  assumes "prefix w (s @ c # zs)" and "c \<notin> set w"
  shows "prefix w s"
proof -
  from assms(1) consider "prefix w s" | us where "w = s @ us" "prefix us (c # zs)"
    by (auto simp: prefix_append)
  then show ?thesis
  proof cases
    case 2
    with assms(2) have "us = []" by (cases us) auto
    with 2 show ?thesis by simp
  qed
qed

lemma number_prefix_none:
  assumes "\<not> has_number_prefix s"
  shows "search number_prefix_re [] (s @ 32 # zs) = None"
proof -
  have "ms number_prefix_re ([], s @ 32 # zs, []) = []"
  proof (rule ccontr)
    assume "ms number_prefix_re ([], s @ 32 # zs, []) \<noteq> []"
    then obtain p1 r1 cs where "(p1, r1, cs) \<in> set (ms number_prefix_re ([], s @ 32 # zs, []))"
      by (cases "ms number_prefix_re ([], s @ 32 # zs, [])") auto
    from number_prefix_match_shape [OF this] obtain ds ws where
      x: "s @ 32 # zs = js ''('' @ ds @ js '')'' @ ws @ r1" and ds: "ds \<noteq> []" "\<forall>d \<in> set ds. is_digit d"
      by blast
    from x have "prefix (js ''('' @ ds @ js '')'') (s @ 32 # zs)" by (simp add: prefix_def)
    moreover have "32 \<notin> set (js ''('' @ ds @ js '')'')"
      using ds(2) by (auto simp: js_def is_digit_def)
    ultimately have "prefix (js ''('' @ ds @ js '')'') s" by (rule prefix_before)
    then obtain r where "s = js ''('' @ ds @ js '')'' @ r" by (auto simp: prefix_def)
    with ds assms show False unfolding has_number_prefix_def by blast
  qed
  then show ?thesis unfolding number_prefix_re_def by (rule search_Bol_start)
qed

lemma trim_id:
  assumes "x \<noteq> []" "\<not> is_space (hd x)" "\<not> is_space (last x)"
  shows "trim x = x"
proof -
  from assms(1,3) have "dropWhile is_space (rev x) = rev x"
    by (cases "rev x") (auto simp: last_rev [symmetric] simp del: last_rev)
  moreover from assms(1,2) have "dropWhile is_space x = x" by (cases x) auto
  ultimately show ?thesis by (simp add: trim_def)
qed

lemma newTitle_generated:
  assumes "\<not> has_number_prefix (sanitizeFilename (title issue))"
  shows "newTitle (generateIssueFilename issue)
     = sanitizeFilename (title issue) @ js '' ('' @ decimal (number issue) @ js '')''"
proof -
  let ?s = "sanitizeFilename (title issue)"
  let ?x = "?s @ js '' ('' @ decimal (number issue) @ js '')''"
  have x: "?x = ?s @ 32 # (js ''('' @ decimal (number issue) @ js '')'')" by (simp add: js_def)
  have "search number_prefix_re [] ?x = None"
    unfolding x using assms by (rule number_prefix_none)
  then have r: "replace_first number_prefix_re (\<lambda>_ _. []) ?x = ?x"
    by (simp add: replace_first_def)
  from sanitizeFilename_head [of "title issue"]
  have h: "?s \<noteq> []" "\<not> is_space (hd ?s)" by (auto simp: dash_or_space_def)
  have "trim ?x = ?x"
  proof (rule trim_id)
    show "?x \<noteq> []" using h(1) by simp
    show "\<not> is_space (hd ?x)" using h by simp
    show "\<not> is_space (last ?x)" by (simp add: js_def is_space_def)
  qed
  with r show ?thesis by (simp add: newTitle_def generateIssueFilename_def)
qed

text \<open>Evaluating a scan step by step.\<close>

lemmas sanitize_eval =
  sanitizeFilename_def replace_all_def scan_None scan_Some
  INVALID_FILENAME_CHARS_def Plus_def trim_dashes_re_def dash_or_space_def is_space_def
  re_test_def WINDOWS_RESERVED_NAMES_def Let_def

text \<open>
  Claim C10 as stated fails on a title that sanitizeFilename changes: the file of issue 5
  with the title \<open>a:b\<close> is named \<open>a-b (5)\<close>, and that is the title a push sends, not
  \<open>a:b (5)\<close>.
\<close>

theorem pushed_title_of_sanitized_name:
  "newTitle (generateIssueFilename
      \<lparr>number = 5, title = js ''a:b'', body = [], repository = js ''o/r'',
       url = js ''https://github.com/o/r/issues/5'', status = js ''Todo'', state = OPEN,
       assignees = [], labels = []\<rparr>) = js ''a-b (5)''
   \<and> js ''a-b (5)'' \<noteq> js ''a:b'' @ js '' (5)''"
proof -
  have s: "sanitizeFilename (js ''a:b'') = js ''a-b''"
    by (simp add: sanitize_eval js_def)
  have d: "decimal 5 = js ''5''" by (simp add: decimal.simps js_def)
  have n: "\<not> has_number_prefix (js ''a-b'')"
    by (simp add: has_number_prefix_def js_def)
  from newTitle_generated [of "\<lparr>number = 5, title = js ''a:b'', body = [], repository = js ''o/r'',
       url = js ''https://github.com/o/r/issues/5'', status = js ''Todo'', state = OPEN,
       assignees = [], labels = []\<rparr>"] n
  show ?thesis by (simp add: s d) (simp add: js_def)
qed

text \<open>
  Claim C10, amended. A pulled issue's file is named with the sanitized title followed by
  \<open> (number)\<close>. Unless the sanitized title itself starts with a group \<open>(digits)\<close>, the title a
  push derives from that name is the whole name: the sanitized title followed by
  \<open> (number)\<close>. So where sanitizeFilename leaves the title as it is, the title sent is the
  original title followed by \<open> (number)\<close>, and differs from the original title.
\<close>

theorem pushed_title_keeps_suffix:
  "(\<not> has_number_prefix (sanitizeFilename (title issue)) \<longrightarrow>
      newTitle (generateIssueFilename issue)
        = sanitizeFilename (title issue) @ js '' ('' @ decimal (number issue) @ js '')'')
   \<and> (sanitizeFilename (title issue) = title issue \<and> \<not> has_number_prefix (title issue) \<longrightarrow>
      newTitle (generateIssueFilename issue)
        = title issue @ js '' ('' @ decimal (number issue) @ js '')''
      \<and> newTitle (generateIssueFilename issue) \<noteq> title issue)"
proof -
  have 1: "newTitle (generateIssueFilename issue)
        = sanitizeFilename (title issue) @ js '' ('' @ decimal (number issue) @ js '')''"
    if "\<not> has_number_prefix (sanitizeFilename (title issue))"
    using that by (rule newTitle_generated)
  have 2: "newTitle (generateIssueFilename issue)
        = title issue @ js '' ('' @ decimal (number issue) @ js '')''
      \<and> newTitle (generateIssueFilename issue) \<noteq> title issue"
    if "sanitizeFilename (title issue) = title issue \<and> \<not> has_number_prefix (title issue)"
    using that 1 by (simp add: js_def)
  from 1 2 show ?thesis by blast
qed

theorem pushed_title_keeps_suffix_witness:
  "newTitle (generateIssueFilename
      \<lparr>number = 12, title = js ''Fix login'', body = [], repository = js ''o/r'',
       url = js ''https://github.com/o/r/issues/12'', status = js ''Todo'', state = OPEN,
       assignees = [], labels = []\<rparr>) = js ''Fix login (12)''"
proof -
  have s: "sanitizeFilename (js ''Fix login'') = js ''Fix login''"
    by (simp add: sanitize_eval js_def)
  have d: "decimal 12 = js ''12''" by (simp add: decimal.simps js_def)
  have n: "\<not> has_number_prefix (js ''Fix login'')"
    by (simp add: has_number_prefix_def js_def)
  from s n pushed_title_keeps_suffix [of "\<lparr>number = 12, title = js ''Fix login'', body = [], repository = js ''o/r'',
       url = js ''https://github.com/o/r/issues/12'', status = js ''Todo'', state = OPEN,
       assignees = [], labels = []\<rparr>"]
  show ?thesis by (simp add: d) (simp add: js_def)
qed

section \<open>The index file\<close>

record StatusOption =
  option_id :: jsstring
  option_name :: jsstring
  color :: "jsstring option"

text \<open>A JavaScript \<open>Map\<close> with string keys: the entries in insertion order. Setting a key
  that is present keeps its place.\<close>

type_synonym 'v jsmap = "(jsstring \<times> 'v) list"

definition map_get :: "'v jsmap \<Rightarrow> jsstring \<Rightarrow> 'v option" where
  "map_get m k = map_of m k"

definition map_set :: "jsstring \<Rightarrow> 'v \<Rightarrow> 'v jsmap \<Rightarrow> 'v jsmap" where
  "map_set k v m =
     (if k \<in> fst ` set m then map (\<lambda>(k', v'). if k' = k then (k', v) else (k', v')) m
      else m @ [(k, v)])"

text \<open>The lines of one status section, and generateIndexContent. \<open>lastSynced\<close> is
  \<open>new Date().toLocaleString()\<close> at the time of the call.\<close>

definition section_lines :: "jsstring \<Rightarrow> jsstring \<Rightarrow> GitHubIssue list \<Rightarrow> jsstring list" where
  "section_lines folder st statusIssues =
     [js ''## '' @ st, []] @
     map (\<lambda>issue.
            let filename = generateIssueFilename issue;
                linkPath = (if folder \<noteq> [] then folder @ js ''/'' @ filename
                            else filename)
            in js ''- [['' @ linkPath @ js ''|'' @ title issue @ js '']]'') statusIssues
     @ [[]]"

definition header_lines :: "jsstring \<Rightarrow> jsstring option \<Rightarrow> jsstring \<Rightarrow> jsstring list" where
  "header_lines projectTitle iterationTitle lastSynced =
     [js ''# '' @ projectTitle] @
     (case iterationTitle of
        None \<Rightarrow> []
      | Some t \<Rightarrow> if t \<noteq> [] then [js ''**Current Iteration:** '' @ t] else [])
     @ [[], js ''*Last synced: '' @ lastSynced @ js ''*'', []]"

definition group_issues :: "GitHubIssue list \<Rightarrow> StatusOption list \<Rightarrow> GitHubIssue list jsmap" where
  "group_issues issues statusOptions =
     (let m0 = fold (\<lambda>st m. map_set (option_name st) [] m) statusOptions [];
          m1 = map_set (js ''No Status'') [] m0
      in fold (\<lambda>issue m.
                 let statusIssues = (case map_get m (status issue) of Some l \<Rightarrow> l | None \<Rightarrow> [])
                 in map_set (status issue) (statusIssues @ [issue]) m) issues m1)"

definition generateIndexContent ::
  "GitHubIssue list \<Rightarrow> StatusOption list \<Rightarrow> jsstring \<Rightarrow> jsstring option \<Rightarrow> jsstring \<Rightarrow> jsstring
     \<Rightarrow> jsstring" where
  "generateIndexContent issues statusOptions projectTitle iterationTitle folder lastSynced =
     join [10]
       (header_lines projectTitle iterationTitle lastSynced @
        concat (map (\<lambda>(st, statusIssues).
                       if length statusIssues = 0 then []
                       else section_lines folder st statusIssues)
                 (group_issues issues statusOptions)))"

text \<open>The order in which keys enter a \<open>Map\<close>: each key at its first appearance.\<close>

definition key_order :: "jsstring list \<Rightarrow> jsstring list" where
  "key_order ks = foldl (\<lambda>acc k. if k \<in> set acc then acc else acc @ [k]) [] ks"

subsection \<open>Facts about the grouping\<close>

definition tabulate :: "jsstring list \<Rightarrow> (jsstring \<Rightarrow> 'v) \<Rightarrow> 'v jsmap" where
  "tabulate ks g = map (\<lambda>k. (k, g k)) ks"

lemma map_get_tabulate:
  "map_get (tabulate ks g) k = (if k \<in> set ks then Some (g k) else None)"
  by (induction ks) (auto simp: map_get_def tabulate_def)

lemma map_set_tabulate:
  "map_set k v (tabulate ks g) = tabulate (if k \<in> set ks then ks else ks @ [k]) (g(k := v))"
  by (auto simp: map_set_def tabulate_def image_iff)

lemma fold_init:
  "fold (\<lambda>k m. map_set k [] m) ks (tabulate acc (\<lambda>_. []))
     = tabulate (foldl (\<lambda>acc k. if k \<in> set acc then acc else acc @ [k]) acc ks) (\<lambda>_. [])"
proof (induction ks arbitrary: acc)
  case Nil
  then show ?case by simp
next
  case (Cons k ks)
  have 1: "map_set k [] (tabulate acc (\<lambda>_. [])) = tabulate (if k \<in> set acc then acc else acc @ [k]) (\<lambda>_. [])"
    by (simp add: map_set_tabulate fun_upd_idem)
  show ?case
    using Cons.IH [of "if k \<in> set acc then acc else acc @ [k]"]
    by (simp only: fold_simps comp_def 1 foldl_Cons)
qed

lemma tabulate_cong: "(\<And>k. k \<in> set ks \<Longrightarrow> g k = h k) \<Longrightarrow> tabulate ks g = tabulate ks h"
  by (simp add: tabulate_def)

lemma fold_group:
  assumes "status ` set seen \<subseteq> set ks"
  shows "fold (\<lambda>issue m.
           let statusIssues = (case map_get m (status issue) of Some l \<Rightarrow> l | None \<Rightarrow> [])
           in map_set (status issue) (statusIssues @ [issue]) m) issues
        (tabulate ks (\<lambda>k. filter (\<lambda>i. status i = k) seen))
     = tabulate (foldl (\<lambda>acc k. if k \<in> set acc then acc else acc @ [k]) ks (map status issues))
         (\<lambda>k. filter (\<lambda>i. status i = k) (seen @ issues))"
  using assms
proof (induction issues arbitrary: ks seen)
  case Nil
  then show ?case by simp
next
  case (Cons issue issues)
  let ?g = "\<lambda>k. filter (\<lambda>i. status i = k) seen"
  let ?ks' = "if status issue \<in> set ks then ks else ks @ [status issue]"
  have step: "(let statusIssues = (case map_get (tabulate ks ?g) (status issue) of Some l \<Rightarrow> l | None \<Rightarrow> [])
           in map_set (status issue) (statusIssues @ [issue]) (tabulate ks ?g))
      = tabulate ?ks' (\<lambda>k. filter (\<lambda>i. status i = k) (seen @ [issue]))"
  proof (cases "status issue \<in> set ks")
    case True
    have "(?g(status issue := ?g (status issue) @ [issue]))
        = (\<lambda>k. filter (\<lambda>i. status i = k) (seen @ [issue]))"
      by (rule ext) simp
    with True show ?thesis by (simp add: Let_def map_set_tabulate map_get_tabulate)
  next
    case False
    with Cons.prems have "filter (\<lambda>i. status i = status issue) seen = []"
      by (auto simp: filter_empty_conv)
    then have "tabulate (ks @ [status issue]) (?g(status issue := [issue]))
        = tabulate (ks @ [status issue]) (\<lambda>k. filter (\<lambda>i. status i = k) (seen @ [issue]))"
      by (intro tabulate_cong) auto
    with False show ?thesis by (simp add: Let_def map_set_tabulate map_get_tabulate)
  qed
  have sub: "status ` set (seen @ [issue]) \<subseteq> set ?ks'"
    using Cons.prems by auto
  show ?case
    using Cons.IH [OF sub]
    by (simp only: fold_simps step list.map foldl_Cons append_assoc append_Cons append_Nil comp_def)
qed


lemma js_eq_iff: "js a = js b \<longleftrightarrow> a = b"
  unfolding js_def by (simp add: inj_map_eq_map inj_on_def)

lemma group_issues_eq:
  "group_issues issues statusOptions
     = tabulate (key_order (map option_name statusOptions @ [js ''No Status''] @ map status issues))
         (\<lambda>k. filter (\<lambda>i. status i = k) issues)"
proof -
  let ?step = "\<lambda>acc k. if k \<in> set acc then acc else acc @ [k]"
  let ?names = "map option_name statusOptions"
  have "fold (\<lambda>st m. map_set (option_name st) [] m) statusOptions []
      = fold (\<lambda>k m. map_set k [] m) ?names (tabulate [] (\<lambda>_. []))"
    by (simp add: fold_map comp_def tabulate_def)
  also have "\<dots> = tabulate (foldl ?step [] ?names) (\<lambda>_. [])"
    by (rule fold_init)
  finally have m0: "fold (\<lambda>st m. map_set (option_name st) [] m) statusOptions []
      = tabulate (foldl ?step [] ?names) (\<lambda>_. [])" .
  have m1: "map_set (js ''No Status'') [] (tabulate (foldl ?step [] ?names) (\<lambda>_. []))
      = tabulate (foldl ?step [] (?names @ [js ''No Status''])) (\<lambda>k. filter (\<lambda>i. status i = k) [])"
    by (simp add: map_set_tabulate fun_upd_idem)
  have "group_issues issues statusOptions
      = tabulate (foldl ?step (foldl ?step [] (?names @ [js ''No Status''])) (map status issues))
          (\<lambda>k. filter (\<lambda>i. status i = k) ([] @ issues))"
    unfolding group_issues_def Let_def m0 m1 by (rule fold_group [unfolded Let_def]) simp
  then show ?thesis by (simp add: key_order_def)
qed

lemma key_order_known:
  assumes "set more_keys \<subseteq> set ks"
  shows "key_order (ks @ more_keys) = key_order ks"
proof -
  let ?step = "\<lambda>acc k. if k \<in> set acc then acc else acc @ [k]"
  have grow: "set acc \<subseteq> set (foldl ?step acc xs) \<and> set xs \<subseteq> set (foldl ?step acc xs)" for acc xs
    by (induction xs arbitrary: acc) (auto, force+)
  have keep: "set xs \<subseteq> set acc \<Longrightarrow> foldl ?step acc xs = acc" for acc xs
    by (induction xs arbitrary: acc) auto
  have "set more_keys \<subseteq> set (foldl ?step [] ks)" using assms grow [of "[]" ks] by auto
  then show ?thesis by (simp add: key_order_def keep)
qed

lemma sections_eq:
  "concat (map (\<lambda>(st, statusIssues). if length statusIssues = 0 then []
                                      else section_lines folder st statusIssues)
       (tabulate ks (\<lambda>k. filter (\<lambda>i. status i = k) issues)))
     = concat (map (\<lambda>st. section_lines folder st (filter (\<lambda>i. status i = st) issues))
         (filter (\<lambda>st. \<exists>i \<in> set issues. status i = st) ks))"
  by (induction ks) (auto simp: tabulate_def filter_empty_conv)

text \<open>
  Claim C9 as stated fails for an issue whose status is not among the options: the \<open>Map\<close>
  gets a new key for it, after \<open>No Status\<close>, so \<open>No Status\<close> is not the last group and a
  section appears for a status that was never declared.
\<close>

theorem generateIndexContent_undeclared_status:
  "generateIndexContent
     [\<lparr>number = 1, title = js ''A'', body = [], repository = js ''o/r'',
        url = js ''https://github.com/o/r/issues/1'', status = js ''Blocked'', state = OPEN,
        assignees = [], labels = []\<rparr>,
      \<lparr>number = 2, title = js ''B'', body = [], repository = js ''o/r'',
        url = js ''https://github.com/o/r/issues/2'', status = js ''No Status'', state = OPEN,
        assignees = [], labels = []\<rparr>]
     [\<lparr>option_id = js ''1'', option_name = js ''Todo'', color = None\<rparr>]
     (js ''P'') None (js ''_issues'') (js ''now'')
   = join [10]
       [js ''# P'', [], js ''*Last synced: now*'', [],
        js ''## No Status'', [], js ''- [[_issues/B (2)|B]]'', [],
        js ''## Blocked'', [], js ''- [[_issues/A (1)|A]]'', []]"
proof -
  have s: "sanitizeFilename (js ''A'') = js ''A''" "sanitizeFilename (js ''B'') = js ''B''"
    by (simp_all add: sanitize_eval js_def)
  have d: "decimal (Suc 0) = js ''1''" "decimal 2 = js ''2''"
    by (subst decimal.simps, simp add: js_def)+
  show ?thesis
    unfolding generateIndexContent_def group_issues_eq sections_eq
    by (simp add: key_order_def header_lines_def section_lines_def generateIssueFilename_def
        s d Let_def js_eq_iff) (simp add: js_def)
qed

text \<open>
  Claim C9, amended. For every issue list and every status-option list, generateIndexContent
  emits, after the header lines, one section per status that has an issue: first the
  option names in the declared order, then \<open>No Status\<close>, then each status that is neither,
  in the order of its first issue. A status without an issue gets no section, and each
  section holds one link line per issue of that status, in the order of the issues. When
  every issue's status is an option name or \<open>No Status\<close>, the sections are the declared
  statuses in order, followed by \<open>No Status\<close>.
\<close>

theorem generateIndexContent_sections:
  "generateIndexContent issues statusOptions projectTitle iterationTitle folder lastSynced
     = join [10]
         (header_lines projectTitle iterationTitle lastSynced @
          concat (map (\<lambda>st. section_lines folder st (filter (\<lambda>i. status i = st) issues))
            (filter (\<lambda>st. \<exists>i \<in> set issues. status i = st)
               (key_order (map option_name statusOptions @ [js ''No Status'']
                  @ map status issues)))))
   \<and> ((\<forall>i \<in> set issues. status i \<in> set (map option_name statusOptions)
           \<or> status i = js ''No Status'') \<longrightarrow>
        generateIndexContent issues statusOptions projectTitle iterationTitle folder lastSynced
          = join [10]
              (header_lines projectTitle iterationTitle lastSynced @
               concat (map (\<lambda>st. section_lines folder st (filter (\<lambda>i. status i = st) issues))
                 (filter (\<lambda>st. \<exists>i \<in> set issues. status i = st)
                    (key_order (map option_name statusOptions @ [js ''No Status'']))))))"
proof -
  have a: "generateIndexContent issues statusOptions projectTitle iterationTitle folder lastSynced
     = join [10]
         (header_lines projectTitle iterationTitle lastSynced @
          concat (map (\<lambda>st. section_lines folder st (filter (\<lambda>i. status i = st) issues))
            (filter (\<lambda>st. \<exists>i \<in> set issues. status i = st)
               (key_order (map option_name statusOptions @ [js ''No Status'']
                  @ map status issues)))))"
    unfolding generateIndexContent_def group_issues_eq sections_eq ..
  have b: "key_order (map option_name statusOptions @ [js ''No Status''] @ map status issues)
      = key_order (map option_name statusOptions @ [js ''No Status''])"
    if "\<forall>i \<in> set issues. status i \<in> set (map option_name statusOptions)
           \<or> status i = js ''No Status''"
    using key_order_known [of "map status issues" "map option_name statusOptions @ [js ''No Status'']"]
      that by auto
  from a b show ?thesis by simp
qed

theorem generateIndexContent_sections_witness:
  "generateIndexContent
     [\<lparr>number = 1, title = js ''A'', body = [], repository = js ''o/r'',
        url = js ''https://github.com/o/r/issues/1'', status = js ''Doing'', state = OPEN,
        assignees = [], labels = []\<rparr>,
      \<lparr>number = 2, title = js ''B'', body = [], repository = js ''o/r'',
        url = js ''https://github.com/o/r/issues/2'', status = js ''Todo'', state = OPEN,
        assignees = [], labels = []\<rparr>,
      \<lparr>number = 3, title = js ''C'', body = [], repository = js ''o/r'',
        url = js ''https://github.com/o/r/issues/3'', status = js ''Todo'', state = OPEN,
        assignees = [], labels = []\<rparr>]
     [\<lparr>option_id = js ''1'', option_name = js ''Todo'', color = None\<rparr>,
      \<lparr>option_id = js ''2'', option_name = js ''Doing'', color = None\<rparr>,
      \<lparr>option_id = js ''3'', option_name = js ''Done'', color = None\<rparr>]
     (js ''P'') None (js ''_issues'') (js ''now'')
   = join [10]
       [js ''# P'', [], js ''*Last synced: now*'', [],
        js ''## Todo'', [], js ''- [[_issues/B (2)|B]]'', js ''- [[_issues/C (3)|C]]'', [],
        js ''## Doing'', [], js ''- [[_issues/A (1)|A]]'', []]"
proof -
  let ?issues = "[\<lparr>number = 1, title = js ''A'', body = [], repository = js ''o/r'',
        url = js ''https://github.com/o/r/issues/1'', status = js ''Doing'', state = OPEN,
        assignees = [], labels = []\<rparr>,
      \<lparr>number = 2, title = js ''B'', body = [], repository = js ''o/r'',
        url = js ''https://github.com/o/r/issues/2'', status = js ''Todo'', state = OPEN,
        assignees = [], labels = []\<rparr>,
      \<lparr>number = 3, title = js ''C'', body = [], repository = js ''o/r'',
        url = js ''https://github.com/o/r/issues/3'', status = js ''Todo'', state = OPEN,
        assignees = [], labels = []\<rparr>]"
  let ?opts = "[\<lparr>option_id = js ''1'', option_name = js ''Todo'', color = None\<rparr>,
      \<lparr>option_id = js ''2'', option_name = js ''Doing'', color = None\<rparr>,
      \<lparr>option_id = js ''3'', option_name = js ''Done'', color = None\<rparr>]"
  have s: "sanitizeFilename (js ''A'') = js ''A''" "sanitizeFilename (js ''B'') = js ''B''"
    "sanitizeFilename (js ''C'') = js ''C''"
    by (simp_all add: sanitize_eval js_def)
  have d: "decimal (Suc 0) = js ''1''" "decimal 2 = js ''2''" "decimal 3 = js ''3''"
    by (subst decimal.simps, simp add: js_def)+
  have h: "\<forall>i \<in> set ?issues. status i \<in> set (map option_name ?opts) \<or> status i = js ''No Status''"
    by simp
  from h generateIndexContent_sections [of ?issues ?opts "js ''P''" None "js ''_issues''" "js ''now''"]
  have "generateIndexContent ?issues ?opts (js ''P'') None (js ''_issues'') (js ''now'')
     = join [10]
         (header_lines (js ''P'') None (js ''now'') @
          concat (map (\<lambda>st. section_lines (js ''_issues'') st (filter (\<lambda>i. status i = st) ?issues))
            (filter (\<lambda>st. \<exists>i \<in> set ?issues. status i = st)
               (key_order (map option_name ?opts @ [js ''No Status''])))))"
    by blast
  then show ?thesis
    by (simp add: key_order_def header_lines_def section_lines_def generateIssueFilename_def
        s d Let_def js_eq_iff) (simp add: js_def)
qed

section \<open>Images\<close>

subsection \<open>Image references in a body\<close>

definition MARKDOWN_IMAGE_REGEX :: re where
  "MARKDOWN_IMAGE_REGEX =
     Seq (Lit (js ''!['')) (Seq (Grp 1 (Star True (Cls (\<lambda>c. c \<noteq> 93))))
       (Seq (Lit (js '']('')) (Seq (Grp 2 (Plus (Cls (\<lambda>c. c \<noteq> 41)))) (Lit (js '')'')))))"

definition WIKILINK_IMAGE_REGEX :: re where
  "WIKILINK_IMAGE_REGEX =
     Seq (Lit (js ''![['')) (Seq (Grp 1 (Plus (Cls (\<lambda>c. c \<noteq> 93 \<and> c \<noteq> 124))))
       (Seq (Opt (Seq (Lit (js ''|'')) (Grp 2 (Star True (Cls (\<lambda>c. c \<noteq> 93))))))
         (Lit (js '']]''))))"

definition LOCAL_IMAGE_COMMENT_REGEX :: re where
  "LOCAL_IMAGE_COMMENT_REGEX =
     Seq (Lit (js ''<!-- obsidian-local: '')) (Seq (Grp 1 (Plus (Cls (\<lambda>c. c \<noteq> 62))))
       (Seq (Lit (js '' -->'' @ [10] @ js ''!['')) (Seq (Star True (Cls (\<lambda>c. c \<noteq> 93)))
         (Seq (Lit (js '']('')) (Seq (Plus (Cls (\<lambda>c. c \<noteq> 41))) (Lit (js '')'')))))))"

definition isLocalPath :: "jsstring \<Rightarrow> bool" where
  "isLocalPath path \<longleftrightarrow>
     \<not> prefix (js ''http://'') path \<and> \<not> prefix (js ''https://'') path
     \<and> \<not> prefix (js ''data:'') path"

text \<open>
  \<open>str.replace(w, t)\<close> for two strings: the first occurrence of \<open>w\<close> is replaced by \<open>t\<close>,
  in which \<open>$$\<close> stands for a dollar sign, \<open>$&\<close> for the occurrence, \<open>$`\<close> for the text
  preceding it and \<open>$'\<close> for the text following it.
\<close>

fun index_of :: "jsstring \<Rightarrow> jsstring \<Rightarrow> jsstring \<Rightarrow> (jsstring \<times> jsstring) option" where
  "index_of w pre [] = (if w = [] then Some (pre, []) else None)"
| "index_of w pre (c # cs) =
     (if prefix w (c # cs) then Some (pre, drop (length w) (c # cs))
      else index_of w (pre @ [c]) cs)"

fun get_substitution :: "jsstring \<Rightarrow> jsstring \<Rightarrow> jsstring \<Rightarrow> jsstring \<Rightarrow> jsstring" where
  "get_substitution matched preceding following (c # d # t) =
     (if c = 36 \<and> d = 36 then 36 # get_substitution matched preceding following t
      else if c = 36 \<and> d = 38 then matched @ get_substitution matched preceding following t
      else if c = 36 \<and> d = 96 then preceding @ get_substitution matched preceding following t
      else if c = 36 \<and> d = 39 then following @ get_substitution matched preceding following t
      else c # get_substitution matched preceding following (d # t))"
| "get_substitution matched preceding following t = t"

definition str_replace :: "jsstring \<Rightarrow> jsstring \<Rightarrow> jsstring \<Rightarrow> jsstring" where
  "str_replace s w t =
     (case index_of w [] s of
        None \<Rightarrow> s
      | Some (preceding, following) \<Rightarrow> preceding @ get_substitution w preceding following t @ following)"

text \<open>restoreLocalImages.\<close>

definition restoreLocalImages :: "jsstring \<Rightarrow> jsstring" where
  "restoreLocalImages content =
     replace_all LOCAL_IMAGE_COMMENT_REGEX
       (\<lambda>_ m. js ''![['' @ trim (tmpl (group m 1)) @ js '']]'') content"

subsection \<open>The vault's image files and the hosting repository\<close>

text \<open>
  An image file of the vault with its path, name, name without extension and bytes (each
  below 256). The platform's \<open>SHA-256\<close>, \<open>btoa\<close> and \<open>toLowerCase\<close> are parameters, and so is
  \<open>normalizePath\<close>.
\<close>

record ImageFile =
  file_path :: jsstring
  file_name :: jsstring
  file_basename :: jsstring
  bytes :: "nat list"

record runtime =
  sha256 :: "nat list \<Rightarrow> nat list"
  btoa :: "jsstring \<Rightarrow> jsstring"
  toLowerCase :: "jsstring \<Rightarrow> jsstring"

definition getExtension :: "runtime \<Rightarrow> jsstring \<Rightarrow> jsstring" where
  "getExtension rt filename =
     (let ext = last (split_on 46 (toLowerCase rt filename))
      in if ext \<noteq> [] then ext else js ''png'')"

definition arrayBufferToBase64 :: "runtime \<Rightarrow> nat list \<Rightarrow> jsstring" where
  "arrayBufferToBase64 rt buffer = btoa rt (foldl (\<lambda>binary b. binary @ [b]) [] buffer)"

definition hex_digit :: "nat \<Rightarrow> nat" where
  "hex_digit d = (if d < 10 then 48 + d else 87 + d)"

definition hashArrayBuffer :: "runtime \<Rightarrow> nat list \<Rightarrow> jsstring" where
  "hashArrayBuffer rt buffer =
     join [] (map (\<lambda>b. [hex_digit (b div 16), hex_digit (b mod 16)]) (sha256 rt buffer))"

definition findImageFile ::
  "(jsstring \<Rightarrow> jsstring) \<Rightarrow> ImageFile list \<Rightarrow> jsstring \<Rightarrow> ImageFile option" where
  "findImageFile normalizePath files imagePath =
     (case find (\<lambda>f. file_path f = normalizePath imagePath) files of
        Some directFile \<Rightarrow> Some directFile
      | None \<Rightarrow>
          (case (if \<not> str_includes imagePath (js ''.'') then
                   concat (map (\<lambda>ext. case find (\<lambda>f. file_path f
                                           = normalizePath (imagePath @ js ''.'' @ ext)) files of
                                         Some withExt \<Rightarrow> [withExt] | None \<Rightarrow> [])
                     [js ''png'', js ''jpg'', js ''jpeg'', js ''gif'', js ''webp'', js ''svg''])
                 else []) of
             withExt # _ \<Rightarrow> Some withExt
           | [] \<Rightarrow>
               (let l = last (split_on 47 imagePath);
                    filename = (if l \<noteq> [] then l else imagePath)
                in find (\<lambda>f. file_name f = filename \<or> file_basename f = filename) files)))"

text \<open>
  A request to the hosting repository, and the world the requests act on: the state of the
  remote side and the requests sent so far. The remote side is a parameter \<open>net\<close>, which
  answers a request with a status or fails. \<open>requestUrl\<close> throws on a status of 400 or more
  unless the request says \<open>throw: false\<close>.
\<close>

datatype http_method = GET | PUT

record put_body =
  message :: jsstring
  content64 :: jsstring
  branch :: jsstring

record request =
  req_url :: jsstring
  req_method :: http_method
  bearer :: jsstring
  req_body :: "put_body option"
  no_throw :: bool

record 's world =
  remote :: 's
  sent :: "request list"

definition requestUrl ::
  "(request \<Rightarrow> 's \<Rightarrow> (thrown + nat) \<times> 's) \<Rightarrow> request \<Rightarrow> 's world \<Rightarrow> (thrown + nat) \<times> 's world" where
  "requestUrl net req w =
     (let (res, s) = net req (remote w);
          w' = \<lparr>remote = s, sent = sent w @ [req]\<rparr>
      in case res of
           Inl e \<Rightarrow> (Inl e, w')
         | Inr st \<Rightarrow>
             if 400 \<le> st \<and> \<not> no_throw req
             then (Inl (JsError (js ''Request failed, status '' @ decimal st)), w')
             else (Inr st, w'))"

definition repo_owner :: "PluginSettings \<Rightarrow> jsstring" where
  "repo_owner settings = hd (split_on 47 (imageHostingRepo settings))"

definition repo_name :: "PluginSettings \<Rightarrow> jsstring" where
  "repo_name settings =
     (let parts = split_on 47 (imageHostingRepo settings)
      in tmpl (if 1 < length parts then Some (parts ! 1) else None))"

definition hosting_branch :: "PluginSettings \<Rightarrow> jsstring" where
  "hosting_branch settings =
     (if imageHostingBranch settings \<noteq> [] then imageHostingBranch settings else js ''main'')"

definition api_base :: "PluginSettings \<Rightarrow> jsstring" where
  "api_base settings =
     (if githubBaseUrl settings \<noteq> [] then js ''https://'' @ githubBaseUrl settings @ js ''/api/v3''
      else js ''https://api.github.com'')"

definition contents_url :: "PluginSettings \<Rightarrow> jsstring \<Rightarrow> jsstring" where
  "contents_url settings filename =
     api_base settings @ js ''/repos/'' @ repo_owner settings @ js ''/'' @ repo_name settings
       @ js ''/contents/images/'' @ filename"

definition blob_url :: "PluginSettings \<Rightarrow> jsstring \<Rightarrow> jsstring" where
  "blob_url settings filename =
     (let githubHost = (if githubBaseUrl settings \<noteq> [] then githubBaseUrl settings
                        else js ''github.com'')
      in js ''https://'' @ githubHost @ js ''/'' @ repo_owner settings @ js ''/''
           @ repo_name settings @ js ''/blob/'' @ hosting_branch settings @ js ''/images/''
           @ filename @ js ''?raw=true'')"

definition imageExistsInRepo ::
  "(request \<Rightarrow> 's \<Rightarrow> (thrown + nat) \<times> 's) \<Rightarrow> PluginSettings \<Rightarrow> jsstring \<Rightarrow> jsstring \<Rightarrow> 's world
     \<Rightarrow> bool \<times> 's world" where
  "imageExistsInRepo net settings accessToken filename w =
     (let apiUrl = contents_url settings filename @ js ''?ref='' @ hosting_branch settings;
          (res, w') = requestUrl net
             \<lparr>req_url = apiUrl, req_method = GET, bearer = accessToken, req_body = None,
              no_throw = True\<rparr> w
      in case res of Inl e \<Rightarrow> (False, w') | Inr st \<Rightarrow> (st = 200, w'))"

definition uploadImageToRepo ::
  "(request \<Rightarrow> 's \<Rightarrow> (thrown + nat) \<times> 's) \<Rightarrow> PluginSettings \<Rightarrow> jsstring \<Rightarrow> jsstring \<Rightarrow> jsstring
     \<Rightarrow> 's world \<Rightarrow> (thrown + jsstring) \<times> 's world" where
  "uploadImageToRepo net settings accessToken filename content w =
     (let (res, w') = requestUrl net
             \<lparr>req_url = contents_url settings filename, req_method = PUT, bearer = accessToken,
              req_body = Some \<lparr>message = js ''Upload image '' @ filename, content64 = content,
                                branch = hosting_branch settings\<rparr>,
              no_throw = False\<rparr> w
      in case res of
           Inl e \<Rightarrow> (Inl e, w')
         | Inr st \<Rightarrow>
             if st \<noteq> 200 \<and> st \<noteq> 201
             then (Inl (JsError (js ''Failed to upload image: '' @ decimal st)), w')
             else (Inr (blob_url settings filename), w'))"

definition image_filename :: "runtime \<Rightarrow> ImageFile \<Rightarrow> jsstring" where
  "image_filename rt f =
     take 16 (hashArrayBuffer rt (bytes f)) @ js ''.'' @ getExtension rt (file_name f)"

definition processLocalImage ::
  "runtime \<Rightarrow> (jsstring \<Rightarrow> jsstring) \<Rightarrow> (request \<Rightarrow> 's \<Rightarrow> (thrown + nat) \<times> 's) \<Rightarrow> PluginSettings
     \<Rightarrow> jsstring \<Rightarrow> ImageFile list \<Rightarrow> jsstring \<Rightarrow> 's world \<Rightarrow> jsstring option \<times> 's world" where
  "processLocalImage rt normalizePath net settings accessToken files imagePath w =
     (case findImageFile normalizePath files imagePath of
        None \<Rightarrow> (None, w)
      | Some f \<Rightarrow>
          (let base64Content = arrayBufferToBase64 rt (bytes f);
               filename = image_filename rt f;
               (exists, w1) = imageExistsInRepo net settings accessToken filename w
           in if exists then (Some (blob_url settings filename), w1)
              else (case uploadImageToRepo net settings accessToken filename base64Content w1 of
                      (Inl e, w2) \<Rightarrow> (None, w2)
                    | (Inr rawUrl, w2) \<Rightarrow> (Some rawUrl, w2))))"

subsection \<open>processImagesOnPush\<close>

record ImageRef =
  full :: jsstring
  ref_path :: jsstring
  alt :: jsstring

record push_result =
  content :: jsstring
  uploadedCount :: nat
  skippedCount :: nat

fun replace_refs ::
  "(jsstring \<Rightarrow> 's world \<Rightarrow> jsstring option \<times> 's world) \<Rightarrow> ImageRef list
     \<Rightarrow> push_result \<times> 's world \<Rightarrow> push_result \<times> 's world" where
  "replace_refs process [] (res, w) = (res, w)"
| "replace_refs process (m # matches) (res, w) =
     (case process (ref_path m) w of
        (Some rawUrl, w') \<Rightarrow>
          if rawUrl \<noteq> [] then
            replace_refs process matches
              (res\<lparr>content := str_replace (content res) (full m)
                       (js ''<!-- obsidian-local: '' @ ref_path m @ js '' -->'' @ [10] @ js ''![''
                          @ alt m @ js '']('' @ rawUrl @ js '')''),
                    uploadedCount := uploadedCount res + 1\<rparr>, w')
          else replace_refs process matches (res\<lparr>skippedCount := skippedCount res + 1\<rparr>, w')
      | (None, w') \<Rightarrow>
          replace_refs process matches (res\<lparr>skippedCount := skippedCount res + 1\<rparr>, w'))"

definition wikiMatches :: "jsstring \<Rightarrow> ImageRef list" where
  "wikiMatches original =
     map (\<lambda>(m, cs). \<lparr>full = m, ref_path = tmpl (group cs 1),
                      alt = (case group cs 2 of
                               Some a \<Rightarrow> if a \<noteq> [] then a else tmpl (group cs 1)
                             | None \<Rightarrow> tmpl (group cs 1))\<rparr>)
       (exec_all WIKILINK_IMAGE_REGEX original)"

definition mdMatches :: "jsstring \<Rightarrow> ImageRef list" where
  "mdMatches original =
     map (\<lambda>(m, cs). \<lparr>full = m, ref_path = tmpl (group cs 2), alt = tmpl (group cs 1)\<rparr>)
       (filter (\<lambda>(m, cs). isLocalPath (tmpl (group cs 2)))
          (exec_all MARKDOWN_IMAGE_REGEX original))"

definition processImagesOnPush ::
  "runtime \<Rightarrow> (jsstring \<Rightarrow> jsstring) \<Rightarrow> (request \<Rightarrow> 's \<Rightarrow> (thrown + nat) \<times> 's) \<Rightarrow> PluginSettings
     \<Rightarrow> jsstring \<Rightarrow> ImageFile list \<Rightarrow> jsstring \<Rightarrow> 's world \<Rightarrow> push_result \<times> 's world" where
  "processImagesOnPush rt normalizePath net settings accessToken files original w =
     (if imageHostingRepo settings = [] then
        (\<lparr>content = original, uploadedCount = 0, skippedCount = 0\<rparr>, w)
      else
        (let process = processLocalImage rt normalizePath net settings accessToken files;
             st1 = replace_refs process (wikiMatches original)
                     (\<lparr>content = original, uploadedCount = 0, skippedCount = 0\<rparr>, w)
         in replace_refs process (mdMatches original) st1))"

text \<open>
  The contents endpoint of the hosting repository, as the functions above rely on it: the
  state is the list of stored resources, a resource being the address up to the query; a
  \<open>GET\<close> finds a stored resource, and a \<open>PUT\<close> stores a new one and refuses one that is there
  (it carries no \<open>sha\<close>).
\<close>

definition resource :: "request \<Rightarrow> jsstring" where
  "resource q = takeWhile (\<lambda>c. c \<noteq> 63) (req_url q)"

definition contents_api :: "request \<Rightarrow> jsstring list \<Rightarrow> (thrown + nat) \<times> jsstring list" where
  "contents_api q stored =
     (case req_method q of
        GET \<Rightarrow> (Inr (if resource q \<in> set stored then 200 else 404), stored)
      | PUT \<Rightarrow> if resource q \<in> set stored then (Inr 422, stored)
               else (Inr 201, stored @ [resource q]))"

subsection \<open>Facts about the upload of one image\<close>

lemma takeWhile_query: "takeWhile (\<lambda>c. c \<noteq> (63::nat)) (u @ 63 # v) = takeWhile (\<lambda>c. c \<noteq> 63) u"
  by (induction u) auto

lemma takeWhile_probe:
  "takeWhile (\<lambda>c. c \<noteq> (63::nat)) (u @ js ''?ref='' @ b) = takeWhile (\<lambda>c. c \<noteq> 63) u"
proof -
  have "js ''?ref='' @ b = 63 # (js ''ref='' @ b)" by (simp add: js_def)
  then show ?thesis by (simp add: takeWhile_query)
qed

text \<open>Against the contents endpoint, processLocalImage of a path that resolves to a file
  answers the address of the blob; it sends the probe, and the upload when the resource
  was not stored.\<close>

definition probe_request :: "PluginSettings \<Rightarrow> jsstring \<Rightarrow> jsstring \<Rightarrow> request" where
  "probe_request settings accessToken filename =
     \<lparr>req_url = contents_url settings filename @ js ''?ref='' @ hosting_branch settings,
      req_method = GET, bearer = accessToken, req_body = None, no_throw = True\<rparr>"

definition put_request :: "PluginSettings \<Rightarrow> jsstring \<Rightarrow> jsstring \<Rightarrow> jsstring \<Rightarrow> request" where
  "put_request settings accessToken filename b64 =
     \<lparr>req_url = contents_url settings filename, req_method = PUT, bearer = accessToken,
      req_body = Some \<lparr>message = js ''Upload image '' @ filename, content64 = b64,
                        branch = hosting_branch settings\<rparr>,
      no_throw = False\<rparr>"

lemma processLocalImage_contents_api:
  assumes "findImageFile normalizePath files imagePath = Some f"
  shows "processLocalImage rt normalizePath contents_api settings accessToken files imagePath w =
     (let filename = image_filename rt f;
          key = takeWhile (\<lambda>c. c \<noteq> 63) (contents_url settings filename)
      in (Some (blob_url settings filename),
          if key \<in> set (remote w)
          then \<lparr>remote = remote w, sent = sent w @ [probe_request settings accessToken filename]\<rparr>
          else \<lparr>remote = remote w @ [key],
                sent = sent w @ [probe_request settings accessToken filename,
                  put_request settings accessToken filename
                    (arrayBufferToBase64 rt (bytes f))]\<rparr>))"
  using assms
  by (simp add: processLocalImage_def imageExistsInRepo_def uploadImageToRepo_def requestUrl_def
      contents_api_def resource_def takeWhile_probe probe_request_def put_request_def Let_def)


definition sample_runtime :: runtime where
  "sample_runtime =
     \<lparr>sha256 = (\<lambda>_. [186, 120, 22, 191, 143, 1, 207, 234, 65, 65, 64, 222, 93, 174, 34, 35,
                      176, 3, 97, 163, 150, 23, 122, 156, 180, 16, 255, 97, 242, 0, 21, 173]),
      btoa = (\<lambda>_. js ''YWJj''),
      toLowerCase = map (\<lambda>c. if 65 \<le> c \<and> c \<le> 90 then c + 32 else c)\<rparr>"

definition hosting_settings :: PluginSettings where
  "hosting_settings = DEFAULT_SETTINGS\<lparr>imageHostingRepo := js ''o/imgs''\<rparr>"

definition image_a :: ImageFile where
  "image_a = \<lparr>file_path = js ''a.png'', file_name = js ''a.png'', file_basename = js ''a'',
              bytes = [97, 98, 99]\<rparr>"

definition image_copy :: ImageFile where
  "image_copy = \<lparr>file_path = js ''copy.PNG'', file_name = js ''copy.PNG'',
                 file_basename = js ''copy'', bytes = [97, 98, 99]\<rparr>"

definition image_b :: ImageFile where
  "image_b = \<lparr>file_path = js ''b.jpg'', file_name = js ''b.jpg'', file_basename = js ''b'',
              bytes = [97, 98, 99]\<rparr>"

lemmas image_eval =
  processLocalImage_def imageExistsInRepo_def uploadImageToRepo_def requestUrl_def
  contents_api_def resource_def findImageFile_def image_filename_def hashArrayBuffer_def
  getExtension_def arrayBufferToBase64_def hex_digit_def contents_url_def blob_url_def
  api_base_def repo_owner_def repo_name_def hosting_branch_def tmpl_def plain_path_def
  sample_runtime_def hosting_settings_def DEFAULT_SETTINGS_def image_a_def image_copy_def
  image_b_def Let_def

text \<open>
  Claim C6 says that at most one upload happens per content digest. The name under which an
  image is stored is made of the digest and of the extension of the file, so the same bytes
  in \<open>a.png\<close> and in \<open>b.jpg\<close> are uploaded twice.
\<close>

theorem processLocalImage_same_bytes_two_uploads:
  "(let (r1, w1) = processLocalImage sample_runtime plain_path contents_api hosting_settings
                     (js ''t'') [image_a, image_b] (js ''a.png'') \<lparr>remote = [], sent = []\<rparr>;
        (r2, w2) = processLocalImage sample_runtime plain_path contents_api hosting_settings
                     (js ''t'') [image_a, image_b] (js ''b.jpg'') w1
    in bytes image_a = bytes image_b
       \<and> hashArrayBuffer sample_runtime (bytes image_a)
           = hashArrayBuffer sample_runtime (bytes image_b)
       \<and> map (\<lambda>q. (req_method q, req_url q)) (sent w2)
           = [(GET, js ''https://api.github.com/repos/o/imgs/contents/images/ba7816bf8f01cfea.png?ref=main''),
              (PUT, js ''https://api.github.com/repos/o/imgs/contents/images/ba7816bf8f01cfea.png''),
              (GET, js ''https://api.github.com/repos/o/imgs/contents/images/ba7816bf8f01cfea.jpg?ref=main''),
              (PUT, js ''https://api.github.com/repos/o/imgs/contents/images/ba7816bf8f01cfea.jpg'')])"
  by (simp add: image_eval js_def)

text \<open>
  Claim C6, amended. Against a hosting repository that keeps what was uploaded, take two
  image references that resolve to files with the same bytes and the same lower-cased
  extension, hence the same derived file name. Once the first has been processed, processing
  the second, then or at any later time, sends the existence probe and nothing else: no
  upload is issued, and the address returned is the one the first processing returned.
\<close>

theorem processLocalImage_dedup:
  assumes "findImageFile normalizePath files path1 = Some f1"
    and "findImageFile normalizePath files path2 = Some f2"
    and "bytes f1 = bytes f2"
    and "getExtension rt (file_name f1) = getExtension rt (file_name f2)"
    and "processLocalImage rt normalizePath contents_api settings accessToken files path1 w
           = (r1, w1)"
    and "set (remote w1) \<subseteq> set (remote w')"
    and "processLocalImage rt normalizePath contents_api settings accessToken files path2 w'
           = (r2, w2)"
  shows "r1 = Some (blob_url settings (image_filename rt f1)) \<and> r2 = r1
       \<and> sent w2 = sent w' @ [probe_request settings accessToken (image_filename rt f1)]
       \<and> filter (\<lambda>q. req_method q = PUT) (sent w2) = filter (\<lambda>q. req_method q = PUT) (sent w')"
proof -
  let ?fn = "image_filename rt f1"
  let ?key = "takeWhile (\<lambda>c. c \<noteq> 63) (contents_url settings ?fn)"
  have fn: "image_filename rt f2 = ?fn"
    using assms(3,4) by (simp add: image_filename_def)
  from assms(5) have r1: "r1 = Some (blob_url settings ?fn)" and "?key \<in> set (remote w1)"
    unfolding processLocalImage_contents_api [OF assms(1)]
    by (auto simp: Let_def split: if_splits)
  with assms(6) have key: "?key \<in> set (remote w')" by auto
  from assms(7) key have "r2 = Some (blob_url settings ?fn)"
    and "w2 = \<lparr>remote = remote w', sent = sent w' @ [probe_request settings accessToken ?fn]\<rparr>"
    unfolding processLocalImage_contents_api [OF assms(2)] fn
    by (auto simp: Let_def)
  with r1 show ?thesis by (simp add: probe_request_def)
qed

theorem processLocalImage_dedup_witness:
  "(let (r1, w1) = processLocalImage sample_runtime plain_path contents_api hosting_settings
                     (js ''t'') [image_a, image_copy] (js ''a.png'') \<lparr>remote = [], sent = []\<rparr>;
        (r2, w2) = processLocalImage sample_runtime plain_path contents_api hosting_settings
                     (js ''t'') [image_a, image_copy] (js ''copy'') w1
    in r1 = Some (js ''https://github.com/o/imgs/blob/main/images/ba7816bf8f01cfea.png?raw=true'')
       \<and> r2 = r1
       \<and> map req_method (sent w1) = [GET, PUT]
       \<and> map req_method (sent w2) = [GET, PUT, GET])"
proof -
  let ?P = "processLocalImage sample_runtime plain_path contents_api hosting_settings (js ''t'')
              [image_a, image_copy]"
  obtain r1 w1 where 1: "?P (js ''a.png'') \<lparr>remote = [], sent = []\<rparr> = (r1, w1)"
    by (cases "?P (js ''a.png'') \<lparr>remote = [], sent = []\<rparr>")
  obtain r2 w2 where 2: "?P (js ''copy'') w1 = (r2, w2)"
    by (cases "?P (js ''copy'') w1")
  have f1: "findImageFile plain_path [image_a, image_copy] (js ''a.png'') = Some image_a"
    by (simp add: image_eval js_def)
  have f2: "findImageFile plain_path [image_a, image_copy] (js ''copy'') = Some image_copy"
    by (simp add: image_eval js_def)
  have b: "bytes image_a = bytes image_copy"
    by (simp add: image_a_def image_copy_def)
  have e: "getExtension sample_runtime (file_name image_a)
      = getExtension sample_runtime (file_name image_copy)"
    by (simp add: image_eval js_def)
  have s1: "map req_method (sent w1) = [GET, PUT]"
    using 1 by (simp add: image_eval js_def) auto
  have u: "blob_url hosting_settings (image_filename sample_runtime image_a)
      = js ''https://github.com/o/imgs/blob/main/images/ba7816bf8f01cfea.png?raw=true''"
    by (simp add: image_eval js_def)
  from processLocalImage_dedup [OF f1 f2 b e 1 subset_refl 2] u s1
  have "r1 = Some (js ''https://github.com/o/imgs/blob/main/images/ba7816bf8f01cfea.png?raw=true'')
       \<and> r2 = r1 \<and> map req_method (sent w1) = [GET, PUT]
       \<and> map req_method (sent w2) = [GET, PUT, GET]"
    by (simp add: probe_request_def)
  with 1 2 show ?thesis by simp
qed

end
